theory Spec2Isabelle
  imports Main
begin

section \<open>Text: code points, whitespace, case\<close>

text \<open>
  A Python \<open>str\<close> is a sequence of Unicode code points, and so is a line that
  \<open>parse_file\<close> reads (decoded as UTF-8 by default, an undecodable byte replaced by
  U+FFFD). A \<open>str\<close> is modelled as the list of its code points, each a natural number;
  \<open>u\<close> gives the code points of an ASCII literal.
\<close>

type_synonym str = "nat list"

definition u :: "string \<Rightarrow> str" where
  "u s = map of_char s"

text \<open>
  The tables of the Python runtime that the parser relies on, over all code points.
  \<open>is_word\<close> is \<open>\w\<close> of a \<open>str\<close> pattern: an alphanumeric character or the
  underscore; \<open>uni_word_ranges\<close> lists the ranges of the alphanumeric code points from
  128 on, in increasing order (Unicode 14.0, the database of Python 3.11).
  \<open>is_space\<close> is \<open>str.isspace\<close>, the characters that \<open>str.strip()\<close> removes.
  \<open>ci_eq k c\<close> says that the pattern character \<open>k\<close> matches the character \<open>c\<close> under
  \<open>re.IGNORECASE\<close>; it is exact for the ASCII characters \<open>k\<close>, the only ones the
  patterns of \<open>parser.py\<close> contain: apart from the two cases of an ASCII letter, \<open>i\<close>
  matches U+0130 and U+0131, \<open>s\<close> matches U+017F and \<open>k\<close> matches U+212A.
\<close>

fun in_ranges :: "nat \<Rightarrow> (nat \<times> nat) list \<Rightarrow> bool" where
  "in_ranges c [] = False"
| "in_ranges c ((lo, hi) # rs) =
     (if c < lo then False else if c \<le> hi then True else in_ranges c rs)"

definition uni_word_ranges :: "(nat \<times> nat) list" where
  "uni_word_ranges =
   [(170, 170), (178, 179), (181, 181), (185, 186), (188, 190), (192, 214), (216, 246),
     (248, 705), (710, 721), (736, 740), (748, 748), (750, 750), (880, 884), (886, 887),
     (890, 893), (895, 895), (902, 902), (904, 906), (908, 908), (910, 929), (931, 1013),
     (1015, 1153), (1162, 1327), (1329, 1366), (1369, 1369), (1376, 1416), (1488, 1514),
     (1519, 1522), (1568, 1610), (1632, 1641), (1646, 1647), (1649, 1747), (1749, 1749),
     (1765, 1766), (1774, 1788), (1791, 1791), (1808, 1808), (1810, 1839), (1869, 1957),
     (1969, 1969), (1984, 2026), (2036, 2037), (2042, 2042), (2048, 2069), (2074, 2074),
     (2084, 2084), (2088, 2088), (2112, 2136), (2144, 2154), (2160, 2183), (2185, 2190),
     (2208, 2249), (2308, 2361), (2365, 2365), (2384, 2384), (2392, 2401), (2406, 2415),
     (2417, 2432), (2437, 2444), (2447, 2448), (2451, 2472), (2474, 2480), (2482, 2482),
     (2486, 2489), (2493, 2493), (2510, 2510), (2524, 2525), (2527, 2529), (2534, 2545),
     (2548, 2553), (2556, 2556), (2565, 2570), (2575, 2576), (2579, 2600), (2602, 2608),
     (2610, 2611), (2613, 2614), (2616, 2617), (2649, 2652), (2654, 2654), (2662, 2671),
     (2674, 2676), (2693, 2701), (2703, 2705), (2707, 2728), (2730, 2736), (2738, 2739),
     (2741, 2745), (2749, 2749), (2768, 2768), (2784, 2785), (2790, 2799), (2809, 2809),
     (2821, 2828), (2831, 2832), (2835, 2856), (2858, 2864), (2866, 2867), (2869, 2873),
     (2877, 2877), (2908, 2909), (2911, 2913), (2918, 2927), (2929, 2935), (2947, 2947),
     (2949, 2954), (2958, 2960), (2962, 2965), (2969, 2970), (2972, 2972), (2974, 2975),
     (2979, 2980), (2984, 2986), (2990, 3001), (3024, 3024), (3046, 3058), (3077, 3084),
     (3086, 3088), (3090, 3112), (3114, 3129), (3133, 3133), (3160, 3162), (3165, 3165),
     (3168, 3169), (3174, 3183), (3192, 3198), (3200, 3200), (3205, 3212), (3214, 3216),
     (3218, 3240), (3242, 3251), (3253, 3257), (3261, 3261), (3293, 3294), (3296, 3297),
     (3302, 3311), (3313, 3314), (3332, 3340), (3342, 3344), (3346, 3386), (3389, 3389),
     (3406, 3406), (3412, 3414), (3416, 3425), (3430, 3448), (3450, 3455), (3461, 3478),
     (3482, 3505), (3507, 3515), (3517, 3517), (3520, 3526), (3558, 3567), (3585, 3632),
     (3634, 3635), (3648, 3654), (3664, 3673), (3713, 3714), (3716, 3716), (3718, 3722),
     (3724, 3747), (3749, 3749), (3751, 3760), (3762, 3763), (3773, 3773), (3776, 3780),
     (3782, 3782), (3792, 3801), (3804, 3807), (3840, 3840), (3872, 3891), (3904, 3911),
     (3913, 3948), (3976, 3980), (4096, 4138), (4159, 4169), (4176, 4181), (4186, 4189),
     (4193, 4193), (4197, 4198), (4206, 4208), (4213, 4225), (4238, 4238), (4240, 4249),
     (4256, 4293), (4295, 4295), (4301, 4301), (4304, 4346), (4348, 4680), (4682, 4685),
     (4688, 4694), (4696, 4696), (4698, 4701), (4704, 4744), (4746, 4749), (4752, 4784),
     (4786, 4789), (4792, 4798), (4800, 4800), (4802, 4805), (4808, 4822), (4824, 4880),
     (4882, 4885), (4888, 4954), (4969, 4988), (4992, 5007), (5024, 5109), (5112, 5117),
     (5121, 5740), (5743, 5759), (5761, 5786), (5792, 5866), (5870, 5880), (5888, 5905),
     (5919, 5937), (5952, 5969), (5984, 5996), (5998, 6000), (6016, 6067), (6103, 6103),
     (6108, 6108), (6112, 6121), (6128, 6137), (6160, 6169), (6176, 6264), (6272, 6276),
     (6279, 6312), (6314, 6314), (6320, 6389), (6400, 6430), (6470, 6509), (6512, 6516),
     (6528, 6571), (6576, 6601), (6608, 6618), (6656, 6678), (6688, 6740), (6784, 6793),
     (6800, 6809), (6823, 6823), (6917, 6963), (6981, 6988), (6992, 7001), (7043, 7072),
     (7086, 7141), (7168, 7203), (7232, 7241), (7245, 7293), (7296, 7304), (7312, 7354),
     (7357, 7359), (7401, 7404), (7406, 7411), (7413, 7414), (7418, 7418), (7424, 7615),
     (7680, 7957), (7960, 7965), (7968, 8005), (8008, 8013), (8016, 8023), (8025, 8025),
     (8027, 8027), (8029, 8029), (8031, 8061), (8064, 8116), (8118, 8124), (8126, 8126),
     (8130, 8132), (8134, 8140), (8144, 8147), (8150, 8155), (8160, 8172), (8178, 8180),
     (8182, 8188), (8304, 8305), (8308, 8313), (8319, 8329), (8336, 8348), (8450, 8450),
     (8455, 8455), (8458, 8467), (8469, 8469), (8473, 8477), (8484, 8484), (8486, 8486),
     (8488, 8488), (8490, 8493), (8495, 8505), (8508, 8511), (8517, 8521), (8526, 8526),
     (8528, 8585), (9312, 9371), (9450, 9471), (10102, 10131), (11264, 11492), (11499, 11502),
     (11506, 11507), (11517, 11517), (11520, 11557), (11559, 11559), (11565, 11565),
     (11568, 11623), (11631, 11631), (11648, 11670), (11680, 11686), (11688, 11694),
     (11696, 11702), (11704, 11710), (11712, 11718), (11720, 11726), (11728, 11734),
     (11736, 11742), (11823, 11823), (12293, 12295), (12321, 12329), (12337, 12341),
     (12344, 12348), (12353, 12438), (12445, 12447), (12449, 12538), (12540, 12543),
     (12549, 12591), (12593, 12686), (12690, 12693), (12704, 12735), (12784, 12799),
     (12832, 12841), (12872, 12879), (12881, 12895), (12928, 12937), (12977, 12991),
     (13312, 19903), (19968, 42124), (42192, 42237), (42240, 42508), (42512, 42539),
     (42560, 42606), (42623, 42653), (42656, 42735), (42775, 42783), (42786, 42888),
     (42891, 42954), (42960, 42961), (42963, 42963), (42965, 42969), (42994, 43009),
     (43011, 43013), (43015, 43018), (43020, 43042), (43056, 43061), (43072, 43123),
     (43138, 43187), (43216, 43225), (43250, 43255), (43259, 43259), (43261, 43262),
     (43264, 43301), (43312, 43334), (43360, 43388), (43396, 43442), (43471, 43481),
     (43488, 43492), (43494, 43518), (43520, 43560), (43584, 43586), (43588, 43595),
     (43600, 43609), (43616, 43638), (43642, 43642), (43646, 43695), (43697, 43697),
     (43701, 43702), (43705, 43709), (43712, 43712), (43714, 43714), (43739, 43741),
     (43744, 43754), (43762, 43764), (43777, 43782), (43785, 43790), (43793, 43798),
     (43808, 43814), (43816, 43822), (43824, 43866), (43868, 43881), (43888, 44002),
     (44016, 44025), (44032, 55203), (55216, 55238), (55243, 55291), (63744, 64109),
     (64112, 64217), (64256, 64262), (64275, 64279), (64285, 64285), (64287, 64296),
     (64298, 64310), (64312, 64316), (64318, 64318), (64320, 64321), (64323, 64324),
     (64326, 64433), (64467, 64829), (64848, 64911), (64914, 64967), (65008, 65019),
     (65136, 65140), (65142, 65276), (65296, 65305), (65313, 65338), (65345, 65370),
     (65382, 65470), (65474, 65479), (65482, 65487), (65490, 65495), (65498, 65500),
     (65536, 65547), (65549, 65574), (65576, 65594), (65596, 65597), (65599, 65613),
     (65616, 65629), (65664, 65786), (65799, 65843), (65856, 65912), (65930, 65931),
     (66176, 66204), (66208, 66256), (66273, 66299), (66304, 66339), (66349, 66378),
     (66384, 66421), (66432, 66461), (66464, 66499), (66504, 66511), (66513, 66517),
     (66560, 66717), (66720, 66729), (66736, 66771), (66776, 66811), (66816, 66855),
     (66864, 66915), (66928, 66938), (66940, 66954), (66956, 66962), (66964, 66965),
     (66967, 66977), (66979, 66993), (66995, 67001), (67003, 67004), (67072, 67382),
     (67392, 67413), (67424, 67431), (67456, 67461), (67463, 67504), (67506, 67514),
     (67584, 67589), (67592, 67592), (67594, 67637), (67639, 67640), (67644, 67644),
     (67647, 67669), (67672, 67702), (67705, 67742), (67751, 67759), (67808, 67826),
     (67828, 67829), (67835, 67867), (67872, 67897), (67968, 68023), (68028, 68047),
     (68050, 68096), (68112, 68115), (68117, 68119), (68121, 68149), (68160, 68168),
     (68192, 68222), (68224, 68255), (68288, 68295), (68297, 68324), (68331, 68335),
     (68352, 68405), (68416, 68437), (68440, 68466), (68472, 68497), (68521, 68527),
     (68608, 68680), (68736, 68786), (68800, 68850), (68858, 68899), (68912, 68921),
     (69216, 69246), (69248, 69289), (69296, 69297), (69376, 69415), (69424, 69445),
     (69457, 69460), (69488, 69505), (69552, 69579), (69600, 69622), (69635, 69687),
     (69714, 69743), (69745, 69746), (69749, 69749), (69763, 69807), (69840, 69864),
     (69872, 69881), (69891, 69926), (69942, 69951), (69956, 69956), (69959, 69959),
     (69968, 70002), (70006, 70006), (70019, 70066), (70081, 70084), (70096, 70106),
     (70108, 70108), (70113, 70132), (70144, 70161), (70163, 70187), (70272, 70278),
     (70280, 70280), (70282, 70285), (70287, 70301), (70303, 70312), (70320, 70366),
     (70384, 70393), (70405, 70412), (70415, 70416), (70419, 70440), (70442, 70448),
     (70450, 70451), (70453, 70457), (70461, 70461), (70480, 70480), (70493, 70497),
     (70656, 70708), (70727, 70730), (70736, 70745), (70751, 70753), (70784, 70831),
     (70852, 70853), (70855, 70855), (70864, 70873), (71040, 71086), (71128, 71131),
     (71168, 71215), (71236, 71236), (71248, 71257), (71296, 71338), (71352, 71352),
     (71360, 71369), (71424, 71450), (71472, 71483), (71488, 71494), (71680, 71723),
     (71840, 71922), (71935, 71942), (71945, 71945), (71948, 71955), (71957, 71958),
     (71960, 71983), (71999, 71999), (72001, 72001), (72016, 72025), (72096, 72103),
     (72106, 72144), (72161, 72161), (72163, 72163), (72192, 72192), (72203, 72242),
     (72250, 72250), (72272, 72272), (72284, 72329), (72349, 72349), (72368, 72440),
     (72704, 72712), (72714, 72750), (72768, 72768), (72784, 72812), (72818, 72847),
     (72960, 72966), (72968, 72969), (72971, 73008), (73030, 73030), (73040, 73049),
     (73056, 73061), (73063, 73064), (73066, 73097), (73112, 73112), (73120, 73129),
     (73440, 73458), (73648, 73648), (73664, 73684), (73728, 74649), (74752, 74862),
     (74880, 75075), (77712, 77808), (77824, 78894), (82944, 83526), (92160, 92728),
     (92736, 92766), (92768, 92777), (92784, 92862), (92864, 92873), (92880, 92909),
     (92928, 92975), (92992, 92995), (93008, 93017), (93019, 93025), (93027, 93047),
     (93053, 93071), (93760, 93846), (93952, 94026), (94032, 94032), (94099, 94111),
     (94176, 94177), (94179, 94179), (94208, 100343), (100352, 101589), (101632, 101640),
     (110576, 110579), (110581, 110587), (110589, 110590), (110592, 110882), (110928, 110930),
     (110948, 110951), (110960, 111355), (113664, 113770), (113776, 113788), (113792, 113800),
     (113808, 113817), (119520, 119539), (119648, 119672), (119808, 119892), (119894, 119964),
     (119966, 119967), (119970, 119970), (119973, 119974), (119977, 119980), (119982, 119993),
     (119995, 119995), (119997, 120003), (120005, 120069), (120071, 120074), (120077, 120084),
     (120086, 120092), (120094, 120121), (120123, 120126), (120128, 120132), (120134, 120134),
     (120138, 120144), (120146, 120485), (120488, 120512), (120514, 120538), (120540, 120570),
     (120572, 120596), (120598, 120628), (120630, 120654), (120656, 120686), (120688, 120712),
     (120714, 120744), (120746, 120770), (120772, 120779), (120782, 120831), (122624, 122654),
     (123136, 123180), (123191, 123197), (123200, 123209), (123214, 123214), (123536, 123565),
     (123584, 123627), (123632, 123641), (124896, 124902), (124904, 124907), (124909, 124910),
     (124912, 124926), (124928, 125124), (125127, 125135), (125184, 125251), (125259, 125259),
     (125264, 125273), (126065, 126123), (126125, 126127), (126129, 126132), (126209, 126253),
     (126255, 126269), (126464, 126467), (126469, 126495), (126497, 126498), (126500, 126500),
     (126503, 126503), (126505, 126514), (126516, 126519), (126521, 126521), (126523, 126523),
     (126530, 126530), (126535, 126535), (126537, 126537), (126539, 126539), (126541, 126543),
     (126545, 126546), (126548, 126548), (126551, 126551), (126553, 126553), (126555, 126555),
     (126557, 126557), (126559, 126559), (126561, 126562), (126564, 126564), (126567, 126570),
     (126572, 126578), (126580, 126583), (126585, 126588), (126590, 126590), (126592, 126601),
     (126603, 126619), (126625, 126627), (126629, 126633), (126635, 126651), (127232, 127244),
     (130032, 130041), (131072, 173791), (173824, 177976), (177984, 178205), (178208, 183969),
     (183984, 191456), (194560, 195101), (196608, 201546)]"

definition is_word :: "nat \<Rightarrow> bool" where
  "is_word c =
     (if c < 128
      then (48 \<le> c \<and> c \<le> 57) \<or> (65 \<le> c \<and> c \<le> 90) \<or> c = 95 \<or> (97 \<le> c \<and> c \<le> 122)
      else in_ranges c uni_word_ranges)"

definition is_space :: "nat \<Rightarrow> bool" where
  "is_space c =
     ((9 \<le> c \<and> c \<le> 13) \<or> (28 \<le> c \<and> c \<le> 32) \<or> c = 133 \<or> c = 160 \<or> c = 5760
      \<or> (8192 \<le> c \<and> c \<le> 8202) \<or> c = 8232 \<or> c = 8233 \<or> c = 8239 \<or> c = 8287
      \<or> c = 12288)"

definition fold_case :: "nat \<Rightarrow> nat" where
  "fold_case c =
     (if 65 \<le> c \<and> c \<le> 90 then c + 32
      else if c = 304 \<or> c = 305 then 105
      else if c = 383 then 115
      else if c = 8490 then 107
      else c)"

definition ci_eq :: "nat \<Rightarrow> nat \<Rightarrow> bool" where
  "ci_eq k c = (fold_case k = fold_case c)"

text \<open>\<open>str.lstrip()\<close>, \<open>str.rstrip()\<close> and \<open>str.strip()\<close> without argument.\<close>

definition lstrip :: "str \<Rightarrow> str" where
  "lstrip s = dropWhile is_space s"

definition rstrip :: "str \<Rightarrow> str" where
  "rstrip s = rev (dropWhile is_space (rev s))"

definition strip :: "str \<Rightarrow> str" where
  "strip s = rstrip (lstrip s)"

section \<open>The regular expressions of \<open>parser.py\<close>\<close>

text \<open>
  The four patterns use three constructs: the word boundary \<open>\b\<close>, a literal character
  (compared without case, all patterns being compiled with \<open>re.IGNORECASE\<close>), and the
  capturing group \<open>([^\]]+)\<close>, a greedy non-empty run of characters other than one given
  character (in either case). \<open>rx_match\<close> is the backtracking matcher anchored at the
  current position: for the group it tries the longest run first and gives one character
  back at a time, as the engine of \<open>re\<close> does. \<open>prev\<close> is the character before the
  position (\<open>None\<close> at the start of the line), and the result is the text of group 1
  (\<open>None\<close> when the pattern has no group) when the pattern matches. \<open>rx_search\<close> is
  \<open>Pattern.search\<close>: the match at the leftmost position that has one.
\<close>

datatype rx = Bnd | Lit nat | PlusNot nat

fun wordy :: "nat option \<Rightarrow> bool" where
  "wordy None = False"
| "wordy (Some c) = is_word c"

fun head_opt :: "str \<Rightarrow> nat option" where
  "head_opt [] = None"
| "head_opt (c # cs) = Some c"

fun first_some :: "'a option list \<Rightarrow> 'a option" where
  "first_some [] = None"
| "first_some (None # xs) = first_some xs"
| "first_some (Some x # xs) = Some x"

fun rx_match :: "rx list \<Rightarrow> nat option \<Rightarrow> str \<Rightarrow> str option \<Rightarrow> str option option" where
  "rx_match [] prev s cap = Some cap"
| "rx_match (Bnd # rs) prev s cap =
     (if wordy prev \<noteq> wordy (head_opt s) then rx_match rs prev s cap else None)"
| "rx_match (Lit k # rs) prev [] cap = None"
| "rx_match (Lit k # rs) prev (c # cs) cap =
     (if ci_eq k c then rx_match rs (Some c) cs cap else None)"
| "rx_match (PlusNot k # rs) prev s cap =
     first_some
       (map (\<lambda>n. rx_match rs (Some (s ! (n - 1))) (drop n s) (Some (take n s)))
            (rev [1 ..< Suc (length (takeWhile (\<lambda>c. \<not> ci_eq k c) s))]))"

fun rx_search :: "rx list \<Rightarrow> nat option \<Rightarrow> str \<Rightarrow> str option option" where
  "rx_search p prev [] = rx_match p prev [] None"
| "rx_search p prev (c # cs) =
     (case rx_match p prev (c # cs) None of
        Some cap \<Rightarrow> Some cap
      | None \<Rightarrow> rx_search p (Some c) cs)"

text \<open>\<open>r'\bERROR\b'\<close>, \<open>r'\bWARNING\b'\<close>, \<open>r'\bCRITICAL\b'\<close> and \<open>r'\[STEP:([^\]]+)\]'\<close>.\<close>

definition ERROR_PATTERN :: "rx list" where
  "ERROR_PATTERN = Bnd # map Lit (u ''ERROR'') @ [Bnd]"

definition WARNING_PATTERN :: "rx list" where
  "WARNING_PATTERN = Bnd # map Lit (u ''WARNING'') @ [Bnd]"

definition CRITICAL_PATTERN :: "rx list" where
  "CRITICAL_PATTERN = Bnd # map Lit (u ''CRITICAL'') @ [Bnd]"

definition STEP_PATTERN :: "rx list" where
  "STEP_PATTERN = map Lit (u ''[STEP:'') @ [PlusNot 93, Lit 93]"

section \<open>The line classifier: \<open>LogParser._parse_line\<close>\<close>

record LogEntry =
  line_number :: int
  message :: str
  level :: str
  step :: "str option"

datatype py_error = AttributeError | OSError str

definition found :: "str option option \<Rightarrow> bool" where
  "found m = (m \<noteq> None)"

text \<open>
  \<open>step_match.group(1)\<close> is \<open>None\<close> for a match in which group 1 took no part, and
  \<open>None.strip()\<close> raises \<open>AttributeError\<close>; the model keeps that branch.
\<close>

definition extract_step :: "str \<Rightarrow> py_error + str option" where
  "extract_step line =
     (case rx_search STEP_PATTERN None line of
        None \<Rightarrow> Inr None
      | Some None \<Rightarrow> Inl AttributeError
      | Some (Some g) \<Rightarrow> Inr (Some (strip g)))"

definition classify :: "str \<Rightarrow> str option" where
  "classify line =
     (if found (rx_search CRITICAL_PATTERN None line) then Some (u ''CRITICAL'')
      else if found (rx_search ERROR_PATTERN None line) then Some (u ''ERROR'')
      else if found (rx_search WARNING_PATTERN None line) then Some (u ''WARNING'')
      else None)"

definition parse_line :: "str \<Rightarrow> int \<Rightarrow> py_error + LogEntry option" where
  "parse_line line n =
     (case classify line of
        None \<Rightarrow> Inr None
      | Some l \<Rightarrow>
          (case extract_step line of
             Inl e \<Rightarrow> Inl e
           | Inr stp \<Rightarrow>
               Inr (Some \<lparr> line_number = n, message = strip line, level = l, step = stp \<rparr>)))"

section \<open>Specification-level notions for the classifier\<close>

text \<open>
  The character before a position: \<open>prev_after prev pre\<close> is the last character of
  \<open>pre\<close>, or \<open>prev\<close> when \<open>pre\<close> is empty; \<open>last_opt\<close> is the same from the start of
  the line.
\<close>

fun prev_after :: "nat option \<Rightarrow> str \<Rightarrow> nat option" where
  "prev_after prev [] = prev"
| "prev_after prev (c # cs) = prev_after (Some c) cs"

definition last_opt :: "str \<Rightarrow> nat option" where
  "last_opt s = (case rev s of [] \<Rightarrow> None | c # _ \<Rightarrow> Some c)"

text \<open>
  The keyword occurs in the line as a word, without regard to case: some stretch \<open>w\<close> of the
  line spells the keyword up to case, the character before it (if any) is not a word
  character and neither is the character after it (if any).
\<close>

definition occurs_word :: "str \<Rightarrow> str \<Rightarrow> bool" where
  "occurs_word kw line =
     (\<exists>pre w post. line = pre @ w @ post \<and> list_all2 ci_eq kw w
        \<and> \<not> wordy (last_opt pre) \<and> \<not> wordy (head_opt post))"

text \<open>
  A step tag in the line: after \<open>pre\<close> comes the literal \<open>[STEP:\<close> in any case, then the
  non-empty text \<open>txt\<close> without a closing bracket, then the closing bracket. A line has a
  tag when it has one somewhere; its first tag is the one that starts leftmost.
\<close>

definition step_tag_at :: "str \<Rightarrow> str \<Rightarrow> str \<Rightarrow> str \<Rightarrow> bool" where
  "step_tag_at line pre txt post =
     (\<exists>tag. line = pre @ tag @ txt @ 93 # post \<and> list_all2 ci_eq (u ''[STEP:'') tag
        \<and> txt \<noteq> [] \<and> 93 \<notin> set txt)"

definition has_step_tag :: "str \<Rightarrow> bool" where
  "has_step_tag line = (\<exists>pre txt post. step_tag_at line pre txt post)"

definition first_step_tag :: "str \<Rightarrow> str \<Rightarrow> bool" where
  "first_step_tag line txt =
     (\<exists>pre post. step_tag_at line pre txt post
        \<and> (\<forall>pre' txt' post'. step_tag_at line pre' txt' post' \<longrightarrow> length pre \<le> length pre'))"

section \<open>Dictionaries\<close>

text \<open>
  A Python \<open>dict\<close> keeps its keys in insertion order, so it is modelled as an association
  list. \<open>dict_get\<close> is \<open>d.get(k, default)\<close>, which only reads; \<open>dd_get\<close> is the same
  call as an operation on the dictionary, returning the dictionary with the value.
  \<open>dict_setitem\<close> is \<open>d[k] = v\<close>: an existing key keeps its place, a new key goes to the
  end. \<open>dd_getitem\<close> is \<open>d[k]\<close> on a \<open>defaultdict\<close>: a missing key is inserted with the
  default value, so this read changes the dictionary. \<open>dd_incr\<close> is \<open>d[k] += 1\<close> and
  \<open>dd_append\<close> is \<open>d[k].append(x)\<close>, both on a \<open>defaultdict\<close>.
\<close>

definition dict_get :: "('k \<times> 'v) list \<Rightarrow> 'k \<Rightarrow> 'v \<Rightarrow> 'v" where
  "dict_get d k dflt = (case map_of d k of None \<Rightarrow> dflt | Some v \<Rightarrow> v)"

definition dd_get :: "('k \<times> 'v) list \<Rightarrow> 'k \<Rightarrow> 'v \<Rightarrow> 'v \<times> ('k \<times> 'v) list" where
  "dd_get d k dflt = (dict_get d k dflt, d)"

fun dict_setitem :: "('k \<times> 'v) list \<Rightarrow> 'k \<Rightarrow> 'v \<Rightarrow> ('k \<times> 'v) list" where
  "dict_setitem [] k v = [(k, v)]"
| "dict_setitem ((k', v') # d) k v =
     (if k' = k then (k', v) # d else (k', v') # dict_setitem d k v)"

definition dd_getitem :: "'v \<Rightarrow> ('k \<times> 'v) list \<Rightarrow> 'k \<Rightarrow> 'v \<times> ('k \<times> 'v) list" where
  "dd_getitem dflt d k =
     (case map_of d k of Some v \<Rightarrow> (v, d) | None \<Rightarrow> (dflt, dict_setitem d k dflt))"

definition dd_incr :: "('k \<times> int) list \<Rightarrow> 'k \<Rightarrow> ('k \<times> int) list" where
  "dd_incr d k = (let (c, d0) = dd_getitem 0 d k in dict_setitem d0 k (c + 1))"

definition dd_append :: "('k \<times> 'v list) list \<Rightarrow> 'k \<Rightarrow> 'v \<Rightarrow> ('k \<times> 'v list) list" where
  "dd_append d k x = (let (b, d0) = dd_getitem [] d k in dict_setitem d0 k (b @ [x]))"

section \<open>The aggregator: \<open>LogAnalyzer\<close>\<close>

text \<open>
  \<open>entry_data\<close> is the dictionary \<open>add_entry\<close> stores: the fields of the entry and the
  file name. The state of a \<open>LogAnalyzer\<close> is its five attributes.
\<close>

record entry_data = LogEntry +
  filename :: "str option"

record LogAnalyzer =
  total_entries :: int
  level_counts :: "(str \<times> int) list"
  step_counts :: "(str \<times> (str \<times> int) list) list"
  entries_by_level :: "(str \<times> entry_data list) list"
  entries_by_step :: "(str \<times> entry_data list) list"

definition reset :: "LogAnalyzer \<Rightarrow> LogAnalyzer" where
  "reset a = a\<lparr> total_entries := 0, level_counts := [], step_counts := [],
                entries_by_level := [], entries_by_step := [] \<rparr>"

text \<open>\<open>__init__\<close> calls \<open>reset\<close> on the new object.\<close>

definition init :: LogAnalyzer where
  "init = \<lparr> total_entries = 0, level_counts = [], step_counts = [],
             entries_by_level = [], entries_by_step = [] \<rparr>"

definition make_entry_data :: "LogEntry \<Rightarrow> str option \<Rightarrow> entry_data" where
  "make_entry_data entry fname =
     \<lparr> line_number = line_number entry, message = message entry, level = level entry,
       step = step entry, filename = fname \<rparr>"

text \<open>The truth value of \<open>entry.step\<close>: \<open>None\<close> and the empty string are false.\<close>

definition truthy :: "str option \<Rightarrow> bool" where
  "truthy x = (case x of None \<Rightarrow> False | Some s \<Rightarrow> s \<noteq> [])"

definition add_entry :: "LogAnalyzer \<Rightarrow> LogEntry \<Rightarrow> str option \<Rightarrow> LogAnalyzer" where
  "add_entry a entry fname =
     (let a1 = a\<lparr> total_entries := total_entries a + 1 \<rparr>;
          a2 = a1\<lparr> level_counts := dd_incr (level_counts a1) (level entry) \<rparr>;
          ed = make_entry_data entry fname;
          a3 = a2\<lparr> entries_by_level := dd_append (entries_by_level a2) (level entry) ed \<rparr>
      in if truthy (step entry)
         then (let s = the (step entry);
                   (inner, sc) = dd_getitem [] (step_counts a3) s;
                   a4 = a3\<lparr> step_counts := dict_setitem sc s (dd_incr inner (level entry)) \<rparr>
               in a4\<lparr> entries_by_step := dd_append (entries_by_step a4) s ed \<rparr>)
         else a3)"

definition analyze_entries :: "LogAnalyzer \<Rightarrow> LogEntry list \<Rightarrow> str option \<Rightarrow> LogAnalyzer" where
  "analyze_entries a entries fname = foldl (\<lambda>a' entry. add_entry a' entry fname) a entries"

text \<open>
  The read operations return their result together with the state they leave, so that a
  read that changed the state would show.
\<close>

record Summary =
  sum_total_entries :: int
  sum_level_counts :: "(str \<times> int) list"
  sum_step_counts :: "(str \<times> (str \<times> int) list) list"
  sum_steps :: "str list"

definition get_summary :: "LogAnalyzer \<Rightarrow> Summary \<times> LogAnalyzer" where
  "get_summary a =
     (\<lparr> sum_total_entries = total_entries a,
        sum_level_counts = level_counts a,
        sum_step_counts = map (\<lambda>(stp, counts). (stp, counts)) (step_counts a),
        sum_steps = map fst (step_counts a) \<rparr>, a)"

definition get_level_frequency :: "LogAnalyzer \<Rightarrow> (str \<times> int) list \<times> LogAnalyzer" where
  "get_level_frequency a = (level_counts a, a)"

definition get_step_frequency ::
  "LogAnalyzer \<Rightarrow> (str \<times> (str \<times> int) list) list \<times> LogAnalyzer" where
  "get_step_frequency a = (map (\<lambda>(stp, counts). (stp, counts)) (step_counts a), a)"

definition get_entries_by_level :: "LogAnalyzer \<Rightarrow> str \<Rightarrow> entry_data list \<times> LogAnalyzer" where
  "get_entries_by_level a lvl =
     (let (r, d) = dd_get (entries_by_level a) lvl [] in (r, a\<lparr> entries_by_level := d \<rparr>))"

definition get_entries_by_step :: "LogAnalyzer \<Rightarrow> str \<Rightarrow> entry_data list \<times> LogAnalyzer" where
  "get_entries_by_step a s =
     (let (r, d) = dd_get (entries_by_step a) s [] in (r, a\<lparr> entries_by_step := d \<rparr>))"

text \<open>Sequences of \<open>add_entry\<close> and \<open>reset\<close> calls on one analyzer.\<close>

datatype op = Add LogEntry "str option" | Reset

fun apply_op :: "LogAnalyzer \<Rightarrow> op \<Rightarrow> LogAnalyzer" where
  "apply_op a (Add entry fname) = add_entry a entry fname"
| "apply_op a Reset = reset a"

definition run :: "LogAnalyzer \<Rightarrow> op list \<Rightarrow> LogAnalyzer" where
  "run a ops = foldl apply_op a ops"

fun trace :: "LogAnalyzer \<Rightarrow> op list \<Rightarrow> LogAnalyzer list" where
  "trace a [] = [a]"
| "trace a (x # xs) = a # trace (apply_op a x) xs"

section \<open>Specification-level notions for the aggregator\<close>

text \<open>The invariant of the data model: \<open>total_entries == sum(level_counts.values())\<close>.\<close>

definition total_inv :: "LogAnalyzer \<Rightarrow> bool" where
  "total_inv a = (total_entries a = sum_list (map snd (level_counts a)))"

text \<open>The records added since the last reset, in the order of their addition.\<close>

definition added :: "op list \<Rightarrow> (LogEntry \<times> str option) list" where
  "added ops = foldl (\<lambda>acc x. case x of Reset \<Rightarrow> [] | Add entry fname \<Rightarrow> acc @ [(entry, fname)]) [] ops"

section \<open>The detailed Markdown report\<close>

text \<open>
  \<open>str_nat\<close> and \<open>str_int\<close> are the decimal text an f-string gives an \<open>int\<close>;
  \<open>slice_to xs m\<close> is the slice \<open>xs[:m]\<close>, which for a negative \<open>m\<close> drops the last
  \<open>-m\<close> elements.
\<close>

definition digit_char :: "nat \<Rightarrow> nat" where
  "digit_char d = 48 + d"

function str_nat :: "nat \<Rightarrow> str" where
  "str_nat n = (if n < 10 then [digit_char n] else str_nat (n div 10) @ [digit_char (n mod 10)])"
  by pat_completeness auto
termination
  by (relation "measure id") auto

declare str_nat.simps [simp del]

definition str_int :: "int \<Rightarrow> str" where
  "str_int i = (if i < 0 then 45 # str_nat (nat (- i)) else str_nat (nat i))"

definition nl :: str where
  "nl = [10]"

definition slice_to :: "'a list \<Rightarrow> int \<Rightarrow> 'a list" where
  "slice_to xs m = (if m < 0 then take (length xs - nat (- m)) xs else take (nat m) xs)"

text \<open>
  \<open>MarkdownReporter.generate_detailed_report\<close>. The model is the text written to the
  file, as a buffer that each \<open>f.write\<close> extends; \<open>now\<close> is the formatted time stamp.
  The path of the file and the failure to open it are not part of the model.
  \<open>write_entry\<close> is the body of the inner loop, \<open>write_level\<close> the body of the loop over
  the three levels, which also passes on the analyzer that \<open>get_entries_by_level\<close>
  returns.
\<close>

definition default_max_entries :: int where
  "default_max_entries = 100"

definition write_entry :: "str \<Rightarrow> entry_data \<Rightarrow> str" where
  "write_entry buf entry =
     (let b1 = buf @ u ''### Line '' @ str_int (line_number entry);
          b2 = (if truthy (filename entry) then b1 @ u '' - '' @ the (filename entry) else b1);
          b3 = (if truthy (step entry) then b2 @ u '' - [STEP: '' @ the (step entry) @ u '']'' else b2);
          b4 = b3 @ nl @ nl
      in b4 @ u ''```'' @ nl @ message entry @ nl @ u ''```'' @ nl @ nl)"

definition write_level :: "int \<Rightarrow> str \<times> LogAnalyzer \<Rightarrow> str \<Rightarrow> str \<times> LogAnalyzer" where
  "write_level max_entries st lvl =
     (let (buf, a) = st;
          (entries, a') = get_entries_by_level a lvl
      in if entries = [] then (buf, a')
         else
           (let b1 = buf @ u ''## '' @ lvl @ u '' Messages ('' @ str_nat (length entries)
                       @ u '' total)'' @ nl @ nl;
                b2 = foldl write_entry b1 (slice_to entries max_entries);
                b3 = (if int (length entries) > max_entries
                      then b2 @ u ''*...and '' @ str_int (int (length entries) - max_entries)
                             @ u '' more '' @ lvl @ u '' messages*'' @ nl @ nl
                      else b2)
            in (b3, a')))"

definition generate_detailed_report :: "LogAnalyzer \<Rightarrow> str \<Rightarrow> int \<Rightarrow> str \<times> LogAnalyzer" where
  "generate_detailed_report analyzer now max_entries =
     (let b0 = u ''# Detailed Log Analysis Report'' @ nl @ nl;
          b1 = b0 @ u ''**Generated:** '' @ now @ nl @ nl
      in foldl (write_level max_entries) (b1, analyzer) [u ''CRITICAL'', u ''ERROR'', u ''WARNING''])"

section \<open>Specification-level notions for the report\<close>

text \<open>
  The part of the report for one level, in the words of the specification: nothing when
  the level has no record; otherwise a heading with the number of records, the first
  \<open>cap\<close> records, and, when there are more than \<open>cap\<close>, a note of how many were left out.
  \<open>entry_block\<close> is the text of one record: a heading with the line number, the file
  name and the step when they are present and not empty, then the message between two
  fences.
\<close>

definition report_header :: "str \<Rightarrow> str" where
  "report_header now =
     (u ''# Detailed Log Analysis Report'') @ nl @ nl @ u ''**Generated:** '' @ now @ nl @ nl"

definition level_heading :: "str \<Rightarrow> nat \<Rightarrow> str" where
  "level_heading lvl k = u ''## '' @ lvl @ u '' Messages ('' @ str_nat k @ u '' total)'' @ nl @ nl"

definition omitted_note :: "nat \<Rightarrow> str \<Rightarrow> str" where
  "omitted_note k lvl = u ''*...and '' @ str_nat k @ u '' more '' @ lvl @ u '' messages*'' @ nl @ nl"

definition entry_block :: "entry_data \<Rightarrow> str" where
  "entry_block e =
     u ''### Line '' @ str_int (line_number e)
       @ (case filename e of None \<Rightarrow> [] | Some f \<Rightarrow> if f = [] then [] else u '' - '' @ f)
       @ (case step e of None \<Rightarrow> []
          | Some s \<Rightarrow> if s = [] then [] else u '' - [STEP: '' @ s @ u '']'')
       @ nl @ nl @ u ''```'' @ nl @ message e @ nl @ u ''```'' @ nl @ nl"

definition level_section :: "nat \<Rightarrow> entry_data list \<Rightarrow> str \<Rightarrow> str" where
  "level_section cap es lvl =
     (if es = [] then []
      else level_heading lvl (length es) @ concat (map entry_block (take cap es))
           @ (if cap < length es then omitted_note (length es - cap) lvl else []))"

section \<open>The file scanner\<close>







section \<open>Properties of the matcher\<close>

lemma prev_after_last: "prev_after prev s = (if s = [] then prev else last_opt s)"
  by (induction s arbitrary: prev) (auto simp: last_opt_def split: list.splits)

text \<open>
  Evaluation of the definitions on given lines: the equations \<open>ev\<close>, and the look-up in
  the table of word characters without a pass over the table at each step.
\<close>

lemma in_ranges_cong: "c = c' \<Longrightarrow> in_ranges c rs = in_ranges c' rs"
  by simp

lemmas uni_word_lookup = uni_word_ranges_def [THEN arg_cong, of "in_ranges c" for c]

lemmas ev = parse_line_def classify_def extract_step_def found_def
  CRITICAL_PATTERN_def ERROR_PATTERN_def WARNING_PATTERN_def STEP_PATTERN_def
  u_def is_word_def is_space_def fold_case_def ci_eq_def strip_def lstrip_def rstrip_def

lemma is_word_letter: "(65 \<le> c \<and> c \<le> 90) \<or> (97 \<le> c \<and> c \<le> 122) \<Longrightarrow> is_word c"
  by (auto simp: is_word_def)

lemma is_word_special: "is_word 304" "is_word 305" "is_word 383" "is_word 8490"
  by (simp_all add: is_word_def uni_word_lookup cong: in_ranges_cong)

lemma fold_case_moved:
  "fold_case c \<noteq> c \<Longrightarrow> is_word c \<and> 97 \<le> fold_case c \<and> fold_case c \<le> 122"
  by (auto simp: fold_case_def is_word_special is_word_letter split: if_splits)

lemma ci_eq_word: "ci_eq k c \<Longrightarrow> is_word c = is_word k"
proof -
  assume e: "ci_eq k c"
  then have f: "fold_case k = fold_case c" by (simp add: ci_eq_def)
  show ?thesis
  proof (cases "fold_case k = k \<and> fold_case c = c")
    case True
    with f show ?thesis by simp
  next
    case False
    then have m: "fold_case k \<noteq> k \<or> fold_case c \<noteq> c" by blast
    have "is_word k \<and> is_word c"
    proof (cases "fold_case k \<noteq> k")
      case True
      then have k: "is_word k" "97 \<le> fold_case k" "fold_case k \<le> 122"
        by (auto dest: fold_case_moved)
      show ?thesis
      proof (cases "fold_case c \<noteq> c")
        case True
        with k show ?thesis by (auto dest: fold_case_moved)
      next
        case False
        with f k have "97 \<le> c \<and> c \<le> 122" by simp
        with k show ?thesis by (simp add: is_word_letter)
      qed
    next
      case False
      with m have c: "fold_case c \<noteq> c" by blast
      then have cw: "is_word c" "97 \<le> fold_case c" "fold_case c \<le> 122"
        by (auto dest: fold_case_moved)
      with f False have "97 \<le> k \<and> k \<le> 122" by simp
      with cw show ?thesis by (simp add: is_word_letter)
    qed
    then show ?thesis by simp
  qed
qed

lemma rx_match_lits:
  "rx_match (map Lit kw @ rs) prev s cap =
     (if length kw \<le> length s \<and> list_all2 ci_eq kw (take (length kw) s)
      then rx_match rs (prev_after prev (take (length kw) s)) (drop (length kw) s) cap
      else None)"
proof (induction kw arbitrary: prev s)
  case Nil
  then show ?case by simp
next
  case (Cons k kw)
  show ?case
  proof (cases s)
    case Nil
    then show ?thesis by simp
  next
    case (Cons c cs)
    then show ?thesis using Cons.IH [of "Some c" cs] by simp
  qed
qed

lemma rx_search_None:
  "rx_search p prev s = None \<longleftrightarrow>
     (\<forall>pre post. s = pre @ post \<longrightarrow> rx_match p (prev_after prev pre) post None = None)"
proof (induction s arbitrary: prev)
  case Nil
  then show ?case by simp
next
  case (Cons c cs)
  show ?case
  proof (cases "rx_match p prev (c # cs) None")
    case None
    have "(\<forall>pre post. c # cs = pre @ post \<longrightarrow> rx_match p (prev_after prev pre) post None = None)
          \<longleftrightarrow> (\<forall>pre post. cs = pre @ post \<longrightarrow> rx_match p (prev_after (Some c) pre) post None = None)"
      (is "?L \<longleftrightarrow> ?R")
    proof
      assume l: ?L
      show ?R
      proof (intro allI impI)
        fix pre post assume "cs = pre @ post"
        then have "c # cs = (c # pre) @ post" by simp
        from l [rule_format, OF this] show "rx_match p (prev_after (Some c) pre) post None = None" by simp
      qed
    next
      assume r: ?R
      show ?L
      proof (intro allI impI)
        fix pre post assume e: "c # cs = pre @ post"
        show "rx_match p (prev_after prev pre) post None = None"
        proof (cases pre)
          case Nil
          with e None show ?thesis by simp
        next
          case (Cons a pre')
          with e have "a = c" "cs = pre' @ post" by simp_all
          with r Cons show ?thesis by simp
        qed
      qed
    qed
    with None Cons.IH [of "Some c"] show ?thesis by simp
  next
    case (Some g)
    then have "\<not> (\<forall>pre post. c # cs = pre @ post \<longrightarrow> rx_match p (prev_after prev pre) post None = None)"
      by (auto intro: exI [of _ "[]"])
    with Some show ?thesis by simp
  qed
qed

lemma last_opt_Nil [simp]: "last_opt [] = None"
  by (simp add: last_opt_def)

lemma prev_after_None: "prev_after None pre = last_opt pre"
  by (simp add: prev_after_last)

lemma list_all2_ci_word:
  "list_all2 ci_eq kw w \<Longrightarrow> list_all is_word kw \<Longrightarrow> list_all is_word w"
  by (induction kw w rule: list_all2_induct) (auto dest: ci_eq_word)

lemma wordy_head_opt: "list_all is_word w \<Longrightarrow> w \<noteq> [] \<Longrightarrow> wordy (head_opt (w @ post))"
  by (cases w) auto

lemma wordy_last_opt: "list_all is_word w \<Longrightarrow> w \<noteq> [] \<Longrightarrow> wordy (last_opt w)"
  by (induction w rule: rev_induct) (auto simp: last_opt_def)

lemma split_take_drop:
  "(\<exists>w post. s = w @ post \<and> list_all2 ci_eq kw w \<and> P w post) \<longleftrightarrow>
   (length kw \<le> length s \<and> list_all2 ci_eq kw (take (length kw) s)
      \<and> P (take (length kw) s) (drop (length kw) s))"
proof
  assume "\<exists>w post. s = w @ post \<and> list_all2 ci_eq kw w \<and> P w post"
  then obtain w post where h: "s = w @ post" "list_all2 ci_eq kw w" "P w post" by blast
  from h(2) have "length kw = length w" by (rule list_all2_lengthD)
  with h show "length kw \<le> length s \<and> list_all2 ci_eq kw (take (length kw) s)
      \<and> P (take (length kw) s) (drop (length kw) s)" by simp
next
  assume "length kw \<le> length s \<and> list_all2 ci_eq kw (take (length kw) s)
      \<and> P (take (length kw) s) (drop (length kw) s)"
  then show "\<exists>w post. s = w @ post \<and> list_all2 ci_eq kw w \<and> P w post"
    by (intro exI [of _ "take (length kw) s"] exI [of _ "drop (length kw) s"]) simp
qed

lemma marker_match:
  assumes kw: "kw \<noteq> []" "list_all is_word kw"
  shows "found (rx_match (Bnd # map Lit kw @ [Bnd]) prev s None) \<longleftrightarrow>
         (\<not> wordy prev \<and> (\<exists>w post. s = w @ post \<and> list_all2 ci_eq kw w \<and> \<not> wordy (head_opt post)))"
proof -
  let ?n = "length kw"
  let ?w = "take ?n s"
  let ?post = "drop ?n s"
  show ?thesis
  proof (cases "?n \<le> length s \<and> list_all2 ci_eq kw ?w")
    case False
    then have "rx_match (map Lit kw @ [Bnd]) prev s None = None"
      by (subst rx_match_lits) auto
    then have "rx_match (Bnd # map Lit kw @ [Bnd]) prev s None = None"
      by simp
    with False show ?thesis
      by (simp only: found_def split_take_drop) blast
  next
    case True
    then have len: "length ?w = ?n" by simp
    with kw have ne: "?w \<noteq> []" by auto
    from True kw have aw: "list_all is_word ?w" by (blast intro: list_all2_ci_word)
    have s: "s = ?w @ ?post" by simp
    have h: "wordy (head_opt s)" using wordy_head_opt [OF aw ne, of ?post] by simp
    have l: "wordy (prev_after prev ?w)" using wordy_last_opt [OF aw ne] ne by (simp add: prev_after_last)
    have "rx_match (Bnd # map Lit kw @ [Bnd]) prev s None =
          (if \<not> wordy prev \<and> \<not> wordy (head_opt ?post) then Some None else None)"
      using True h l by (simp add: rx_match_lits)
    then show ?thesis using True by (simp add: found_def split_take_drop)
  qed
qed

lemma found_search:
  "found (rx_search p prev s) \<longleftrightarrow>
     (\<exists>pre post. s = pre @ post \<and> found (rx_match p (prev_after prev pre) post None))"
  using rx_search_None [of p prev s] by (auto simp: found_def)

lemma marker_search:
  assumes kw: "kw \<noteq> []" "list_all is_word kw"
  shows "found (rx_search (Bnd # map Lit kw @ [Bnd]) None line) \<longleftrightarrow> occurs_word kw line"
  unfolding found_search marker_match [OF kw] occurs_word_def prev_after_None
  by auto

lemma ci_eq_bracket: "ci_eq 93 c \<longleftrightarrow> c = 93"
  by (auto simp: ci_eq_def fold_case_def split: if_splits)

lemma first_some_all_None: "(\<And>x. x \<in> set xs \<Longrightarrow> g x = None) \<Longrightarrow> first_some (map g xs) = None"
  by (induction xs) auto

lemma rx_match_PlusNot:
  "rx_match [PlusNot k, Lit k] prev t cap =
     (let run = takeWhile (\<lambda>c. \<not> ci_eq k c) t
      in if run \<noteq> [] \<and> length run < length t then Some (Some run) else None)"
proof -
  define run where "run = takeWhile (\<lambda>c. \<not> ci_eq k c) t"
  define m where "m = length run"
  define f where "f = (\<lambda>n. rx_match [Lit k] (Some (t ! (n - 1))) (drop n t) (Some (take n t)))"
  have m_le: "m \<le> length t" by (simp add: m_def run_def length_takeWhile_le)
  have e: "rx_match [PlusNot k, Lit k] prev t cap = first_some (map f (rev [1 ..< Suc m]))"
    by (simp add: f_def m_def run_def)
  have small: "f n = None" if "1 \<le> n" "n < m" for n
  proof -
    from that m_le have "n < length t" by simp
    then have d: "drop n t = t ! n # drop (Suc n) t" by (simp add: Cons_nth_drop_Suc)
    from that have "n < length (takeWhile (\<lambda>c. \<not> ci_eq k c) t)" by (simp add: m_def run_def)
    then have "takeWhile (\<lambda>c. \<not> ci_eq k c) t ! n \<in> set (takeWhile (\<lambda>c. \<not> ci_eq k c) t)"
      by (rule nth_mem)
    then have "\<not> ci_eq k (takeWhile (\<lambda>c. \<not> ci_eq k c) t ! n)"
      by (rule set_takeWhileD [THEN conjunct2])
    moreover have "takeWhile (\<lambda>c. \<not> ci_eq k c) t ! n = t ! n"
      using \<open>n < length (takeWhile (\<lambda>c. \<not> ci_eq k c) t)\<close> by (rule takeWhile_nth)
    ultimately have "\<not> ci_eq k (t ! n)" by simp
    with d show ?thesis by (simp add: f_def)
  qed
  show ?thesis
  proof (cases "m = 0")
    case True
    then have "run = []" by (simp add: m_def)
    with True e show ?thesis by (simp add: run_def [symmetric])
  next
    case False
    then have r: "rev [1 ..< Suc m] = m # rev [1 ..< m]" by (cases m) simp_all
    have rest: "first_some (map f (rev [1 ..< m])) = None"
      by (rule first_some_all_None) (auto intro: small)
    from False have ne: "run \<noteq> []" by (simp add: m_def)
    have tk: "take m t = run"
      unfolding m_def run_def by (rule takeWhile_eq_take [symmetric])
    show ?thesis
    proof (cases "m < length t")
      case True
      then have d: "drop m t = t ! m # drop (Suc m) t" by (simp add: Cons_nth_drop_Suc)
      from True have "ci_eq k (t ! m)"
        using nth_length_takeWhile [of "\<lambda>c. \<not> ci_eq k c" t] by (simp add: m_def run_def)
      with d tk have "f m = Some (Some run)" by (simp add: f_def)
      with e r True ne show ?thesis by (simp add: run_def [symmetric] m_def [symmetric])
    next
      case False
      with m_le have "m = length t" by simp
      then have "f m = None" by (simp add: f_def)
      with e r rest False ne show ?thesis by (simp add: run_def [symmetric] m_def [symmetric])
    qed
  qed
qed

lemma takeWhile_split:
  "(\<And>c. c \<in> set txt \<Longrightarrow> P c) \<Longrightarrow> \<not> P x \<Longrightarrow> takeWhile P (txt @ x # post) = txt"
  by (simp add: takeWhile_tail)

lemma run_split:
  assumes "length (takeWhile P t) < length t"
  shows "t = takeWhile P t @ t ! length (takeWhile P t) # drop (Suc (length (takeWhile P t))) t"
proof -
  from assms have "t = take (length (takeWhile P t)) t @ t ! length (takeWhile P t)
      # drop (Suc (length (takeWhile P t))) t"
    by (rule id_take_nth_drop)
  then show ?thesis by (simp only: takeWhile_eq_take [symmetric])
qed

lemma STEP_PATTERN_unfold:
  "rx_match STEP_PATTERN prev s None =
     (if 6 \<le> length s \<and> list_all2 ci_eq (u ''[STEP:'') (take 6 s)
      then (let run = takeWhile (\<lambda>c. c \<noteq> 93) (drop 6 s)
            in if run \<noteq> [] \<and> length run < length (drop 6 s) then Some (Some run) else None)
      else None)"
proof -
  have len: "length (u ''[STEP:'') = 6" by (simp add: u_def)
  have "rx_match (map Lit (u ''[STEP:'') @ [PlusNot 93, Lit 93]) prev s None =
     (if length (u ''[STEP:'') \<le> length s \<and> list_all2 ci_eq (u ''[STEP:'') (take (length (u ''[STEP:'')) s)
      then rx_match [PlusNot 93, Lit 93]
             (prev_after prev (take (length (u ''[STEP:'')) s)) (drop (length (u ''[STEP:'')) s) None
      else None)"
    by (rule rx_match_lits)
  then show ?thesis
    unfolding STEP_PATTERN_def len by (simp only: rx_match_PlusNot ci_eq_bracket)
qed

lemma step_match:
  "rx_match STEP_PATTERN prev s None = Some g \<longleftrightarrow>
     (\<exists>txt post. g = Some txt \<and> step_tag_at s [] txt post)"
proof
  assume a: "rx_match STEP_PATTERN prev s None = Some g"
  let ?t = "drop 6 s"
  let ?run = "takeWhile (\<lambda>c. c \<noteq> 93) ?t"
  from a have h: "6 \<le> length s" "list_all2 ci_eq (u ''[STEP:'') (take 6 s)"
      "?run \<noteq> []" "length ?run < length ?t" "g = Some ?run"
    by (auto simp: STEP_PATTERN_unfold Let_def split: if_splits)
  from h(4) have t: "?t = ?run @ ?t ! length ?run # drop (Suc (length ?run)) ?t"
    by (rule run_split)
  from h(4) have "\<not> (?t ! length ?run \<noteq> 93)"
    by (rule nth_length_takeWhile)
  with t have t': "?t = ?run @ 93 # drop (Suc (length ?run)) ?t" by simp
  have "s = take 6 s @ ?t" by simp
  with t' have "s = [] @ take 6 s @ ?run @ 93 # drop (Suc (length ?run)) ?t" by simp
  moreover have "93 \<notin> set ?run" by (auto dest: set_takeWhileD)
  ultimately have "step_tag_at s [] ?run (drop (Suc (length ?run)) ?t)"
    unfolding step_tag_at_def using h(2,3) by blast
  with h(5) show "\<exists>txt post. g = Some txt \<and> step_tag_at s [] txt post" by blast
next
  assume "\<exists>txt post. g = Some txt \<and> step_tag_at s [] txt post"
  then obtain tx post tg where h: "g = Some tx" "s = tg @ tx @ 93 # post"
      "list_all2 ci_eq (u ''[STEP:'') tg" "tx \<noteq> []" "93 \<notin> set tx"
    unfolding step_tag_at_def by auto
  from h(3) have len: "length tg = 6" by (auto dest: list_all2_lengthD simp: u_def)
  with h(2) have tk: "take 6 s = tg" and dr: "drop 6 s = tx @ 93 # post" by simp_all
  have run: "takeWhile (\<lambda>c. c \<noteq> 93) (tx @ 93 # post) = tx"
    using h(5) by (intro takeWhile_split) auto
  from len h(2) have "6 \<le> length s" by simp
  with tk dr run h show "rx_match STEP_PATTERN prev s None = Some g"
    by (simp add: STEP_PATTERN_unfold Let_def)
qed

lemma rx_search_Some_D:
  "rx_search p prev s = Some g \<Longrightarrow>
     \<exists>pre post. s = pre @ post \<and> rx_match p (prev_after prev pre) post None = Some g
       \<and> (\<forall>pre' post'. s = pre' @ post' \<and> length pre' < length pre
             \<longrightarrow> rx_match p (prev_after prev pre') post' None = None)"
proof (induction s arbitrary: prev)
  case Nil
  then show ?case by simp
next
  case (Cons c cs)
  show ?case
  proof (cases "rx_match p prev (c # cs) None")
    case (Some g')
    with Cons.prems have "rx_match p (prev_after prev []) (c # cs) None = Some g" by simp
    then show ?thesis by (intro exI [of _ "[]"] exI [of _ "c # cs"]) simp
  next
    case None
    with Cons.prems have "rx_search p (Some c) cs = Some g" by simp
    from Cons.IH [OF this] obtain pre post where h: "cs = pre @ post"
      "rx_match p (prev_after (Some c) pre) post None = Some g"
      "\<forall>pre' post'. cs = pre' @ post' \<and> length pre' < length pre
             \<longrightarrow> rx_match p (prev_after (Some c) pre') post' None = None"
      by blast
    have "rx_match p (prev_after prev pre') post' None = None"
      if "c # cs = pre' @ post'" "length pre' < length (c # pre)" for pre' post'
    proof (cases pre')
      case Nil
      with that None show ?thesis by simp
    next
      case (Cons a pre'')
      with that have "a = c" "cs = pre'' @ post'" "length pre'' < length pre" by simp_all
      with h(3) Cons show ?thesis by simp
    qed
    with h(1,2) show ?thesis
      by (intro exI [of _ "c # pre"] exI [of _ post]) simp
  qed
qed

lemma rx_search_Some_I:
  "s = pre @ post \<Longrightarrow> rx_match p (prev_after prev pre) post None = Some g \<Longrightarrow>
   (\<And>pre' post'. s = pre' @ post' \<Longrightarrow> length pre' < length pre
       \<Longrightarrow> rx_match p (prev_after prev pre') post' None = None) \<Longrightarrow>
   rx_search p prev s = Some g"
proof (induction pre arbitrary: prev s)
  case Nil
  then have "rx_match p prev s None = Some g" by simp
  then show ?case by (cases s) simp_all
next
  case (Cons c pre)
  from Cons.prems(1) have s: "s = c # (pre @ post)" by simp
  have "rx_match p (prev_after prev []) s None = None"
    by (rule Cons.prems(3)) simp_all
  then have n: "rx_match p prev (c # (pre @ post)) None = None" by (simp add: s)
  have "rx_search p (Some c) (pre @ post) = Some g"
  proof (rule Cons.IH)
    show "pre @ post = pre @ post" ..
    from Cons.prems(2) show "rx_match p (prev_after (Some c) pre) post None = Some g" by simp
  next
    fix pre' post' assume a: "pre @ post = pre' @ post'" "length pre' < length pre"
    have "rx_match p (prev_after prev (c # pre')) post' None = None"
      by (rule Cons.prems(3)) (use a s in simp_all)
    then show "rx_match p (prev_after (Some c) pre') post' None = None" by simp
  qed
  with n show ?case by (simp add: s)
qed

lemma step_tag_at_shift: "step_tag_at (pre @ s) pre txt post = step_tag_at s [] txt post"
  by (simp add: step_tag_at_def)

lemma step_tag_at_split: "step_tag_at line pre txt post \<Longrightarrow> \<exists>s. line = pre @ s"
  by (auto simp: step_tag_at_def)

lemma step_search_None: "rx_search STEP_PATTERN None line = None \<longleftrightarrow> \<not> has_step_tag line"
proof
  assume a: "rx_search STEP_PATTERN None line = None"
  show "\<not> has_step_tag line"
  proof
    assume "has_step_tag line"
    then obtain pre tx post where t: "step_tag_at line pre tx post"
      by (auto simp: has_step_tag_def)
    then obtain s where s: "line = pre @ s" by (blast dest: step_tag_at_split)
    with t have "step_tag_at s [] tx post" by (simp add: step_tag_at_shift)
    then have "rx_match STEP_PATTERN (prev_after None pre) s None = Some (Some tx)"
      by (subst step_match) blast
    moreover from a s have "rx_match STEP_PATTERN (prev_after None pre) s None = None"
      by (simp add: rx_search_None)
    ultimately show False by simp
  qed
next
  assume n: "\<not> has_step_tag line"
  have "rx_match STEP_PATTERN (prev_after None pre) post None = None" if "line = pre @ post" for pre post
  proof (rule ccontr)
    assume "rx_match STEP_PATTERN (prev_after None pre) post None \<noteq> None"
    then obtain g where "rx_match STEP_PATTERN (prev_after None pre) post None = Some g" by blast
    then obtain tx post' where "step_tag_at post [] tx post'" by (auto simp: step_match)
    with that have "step_tag_at line pre tx post'" by (simp add: step_tag_at_shift)
    with n show False by (auto simp: has_step_tag_def)
  qed
  then show "rx_search STEP_PATTERN None line = None" by (simp add: rx_search_None)
qed

lemma step_search_Some:
  "rx_search STEP_PATTERN None line = Some g \<Longrightarrow> \<exists>tx. g = Some tx \<and> first_step_tag line tx"
proof -
  assume "rx_search STEP_PATTERN None line = Some g"
  then obtain pre post where h: "line = pre @ post"
      "rx_match STEP_PATTERN (prev_after None pre) post None = Some g"
      "\<forall>pre' post'. line = pre' @ post' \<and> length pre' < length pre
          \<longrightarrow> rx_match STEP_PATTERN (prev_after None pre') post' None = None"
    by (blast dest: rx_search_Some_D)
  from h(2) obtain tx post' where g: "g = Some tx" and t: "step_tag_at post [] tx post'"
    by (auto simp: step_match)
  from t h(1) have here: "step_tag_at line pre tx post'" by (simp add: step_tag_at_shift)
  have "length pre \<le> length pre'" if o: "step_tag_at line pre' tx' post''" for pre' tx' post''
  proof (rule ccontr)
    assume "\<not> length pre \<le> length pre'"
    then have less: "length pre' < length pre" by simp
    from o obtain s where s: "line = pre' @ s" by (blast dest: step_tag_at_split)
    with o have "step_tag_at s [] tx' post''" by (simp add: step_tag_at_shift)
    then have "rx_match STEP_PATTERN (prev_after None pre') s None = Some (Some tx')"
      by (subst step_match) blast
    moreover from h(3) s less have "rx_match STEP_PATTERN (prev_after None pre') s None = None"
      by blast
    ultimately show False by simp
  qed
  with here have "first_step_tag line tx" unfolding first_step_tag_def by blast
  with g show ?thesis by blast
qed

lemma step_tag_at_unique:
  assumes "step_tag_at line pre t1 post1" "step_tag_at line pre t2 post2"
  shows "t1 = t2"
proof -
  from assms(1) obtain s where s: "line = pre @ s" by (blast dest: step_tag_at_split)
  with assms have "step_tag_at s [] t1 post1" "step_tag_at s [] t2 post2"
    by (simp_all add: step_tag_at_shift)
  then have "rx_match STEP_PATTERN None s None = Some (Some t1)"
      "rx_match STEP_PATTERN None s None = Some (Some t2)"
    by (subst step_match, blast)+
  then show ?thesis by simp
qed

lemma first_step_tag_unique:
  assumes "first_step_tag line t1" "first_step_tag line t2"
  shows "t1 = t2"
proof -
  from assms(1) obtain pre1 post1 where a: "step_tag_at line pre1 t1 post1"
      "\<forall>pre' tx' post'. step_tag_at line pre' tx' post' \<longrightarrow> length pre1 \<le> length pre'"
    unfolding first_step_tag_def by blast
  from assms(2) obtain pre2 post2 where b: "step_tag_at line pre2 t2 post2"
      "\<forall>pre' tx' post'. step_tag_at line pre' tx' post' \<longrightarrow> length pre2 \<le> length pre'"
    unfolding first_step_tag_def by blast
  from a b have len: "length pre1 = length pre2" by (meson le_antisym)
  from a(1) b(1) obtain s1 s2 where "line = pre1 @ s1" "line = pre2 @ s2"
    by (blast dest: step_tag_at_split)
  with len have "pre1 = pre2" by (metis append_eq_append_conv)
  with a(1) b(1) show ?thesis by (blast intro: step_tag_at_unique)
qed

lemma extract_step_cases:
  "(extract_step line = Inr None \<and> \<not> has_step_tag line)
   \<or> (\<exists>tx. extract_step line = Inr (Some (strip tx)) \<and> first_step_tag line tx \<and> has_step_tag line)"
proof (cases "rx_search STEP_PATTERN None line")
  case None
  then show ?thesis by (simp add: extract_step_def step_search_None [symmetric])
next
  case (Some g)
  then obtain tx where "g = Some tx" "first_step_tag line tx" by (blast dest: step_search_Some)
  moreover from Some have "has_step_tag line" using step_search_None [of line] by simp
  ultimately show ?thesis using Some by (auto simp: extract_step_def)
qed

lemma classify_spec:
  "classify line =
     (if occurs_word (u ''CRITICAL'') line then Some (u ''CRITICAL'')
      else if occurs_word (u ''ERROR'') line then Some (u ''ERROR'')
      else if occurs_word (u ''WARNING'') line then Some (u ''WARNING'')
      else None)"
proof -
  have c: "found (rx_search CRITICAL_PATTERN None line) = occurs_word (u ''CRITICAL'') line"
    unfolding CRITICAL_PATTERN_def by (rule marker_search) (simp_all add: u_def is_word_def)
  have e: "found (rx_search ERROR_PATTERN None line) = occurs_word (u ''ERROR'') line"
    unfolding ERROR_PATTERN_def by (rule marker_search) (simp_all add: u_def is_word_def)
  have w: "found (rx_search WARNING_PATTERN None line) = occurs_word (u ''WARNING'') line"
    unfolding WARNING_PATTERN_def by (rule marker_search) (simp_all add: u_def is_word_def)
  show ?thesis by (simp only: classify_def c e w)
qed

lemma parse_line_cases:
  "parse_line line n =
     (case classify line of
        None \<Rightarrow> Inr None
      | Some l \<Rightarrow> Inr (Some \<lparr> line_number = n, message = strip line, level = l,
            step = (case extract_step line of Inr stp \<Rightarrow> stp | Inl e \<Rightarrow> None) \<rparr>))"
  using extract_step_cases [of line]
  by (auto simp: parse_line_def split: option.splits)

section \<open>Properties of \<open>strip\<close>\<close>

lemma lstrip_split: "s = takeWhile is_space s @ lstrip s"
  by (simp add: lstrip_def)

lemma rstrip_split: "s = rstrip s @ rev (takeWhile is_space (rev s))"
proof -
  have "rev (takeWhile is_space (rev s) @ dropWhile is_space (rev s)) = s" by simp
  then have "rev (dropWhile is_space (rev s)) @ rev (takeWhile is_space (rev s)) = s"
    by (simp only: rev_append)
  then show ?thesis by (simp only: rstrip_def)
qed

lemma strip_split:
  "s = takeWhile is_space s @ strip s @ rev (takeWhile is_space (rev (lstrip s)))"
proof -
  have "lstrip s = strip s @ rev (takeWhile is_space (rev (lstrip s)))"
    unfolding strip_def by (rule rstrip_split)
  with lstrip_split [of s] show ?thesis by simp
qed

lemma rstrip_last: "rstrip s \<noteq> [] \<Longrightarrow> \<not> is_space (last (rstrip s))"
  by (simp add: rstrip_def last_rev hd_dropWhile)

lemma lstrip_hd: "lstrip s \<noteq> [] \<Longrightarrow> \<not> is_space (hd (lstrip s))"
  by (simp add: lstrip_def hd_dropWhile)

lemma strip_ends:
  assumes "strip s \<noteq> []"
  shows "\<not> is_space (hd (strip s)) \<and> \<not> is_space (last (strip s))"
proof -
  have l: "lstrip s = strip s @ rev (takeWhile is_space (rev (lstrip s)))"
    unfolding strip_def by (rule rstrip_split)
  with assms have ne: "lstrip s \<noteq> []" by auto
  from l assms have "hd (lstrip s) = hd (strip s)" by (metis hd_append2)
  with lstrip_hd [OF ne] have "\<not> is_space (hd (strip s))" by simp
  moreover from assms have "\<not> is_space (last (strip s))"
    unfolding strip_def by (rule rstrip_last)
  ultimately show ?thesis ..
qed

section \<open>The line classifier\<close>

text \<open>
  C1. For every line and line number the classifier returns without error, and the level of
  its result is that of the first of CRITICAL, ERROR, WARNING that occurs in the line as a
  word, in any case; there is no record when none of the three occurs. A line with both
  ERROR and CRITICAL is classified CRITICAL, and \<open>ERRORCODE\<close> is no occurrence of ERROR.
\<close>

theorem parse_line_level:
  "(\<exists>res. parse_line line n = Inr res
      \<and> map_option level res =
          (if occurs_word (u ''CRITICAL'') line then Some (u ''CRITICAL'')
           else if occurs_word (u ''ERROR'') line then Some (u ''ERROR'')
           else if occurs_word (u ''WARNING'') line then Some (u ''WARNING'')
           else None))
   \<and> (\<exists>r. parse_line (u ''ERROR: CRITICAL failure'') n = Inr (Some r) \<and> level r = u ''CRITICAL'')
   \<and> parse_line (u ''ERRORCODE 17'') n = Inr None"
proof (intro conjI)
  show "\<exists>res. parse_line line n = Inr res
      \<and> map_option level res =
          (if occurs_word (u ''CRITICAL'') line then Some (u ''CRITICAL'')
           else if occurs_word (u ''ERROR'') line then Some (u ''ERROR'')
           else if occurs_word (u ''WARNING'') line then Some (u ''WARNING'')
           else None)"
    unfolding classify_spec [symmetric]
    by (simp add: parse_line_cases split: option.splits)
  have "parse_line (u ''ERROR: CRITICAL failure'') n = Inr (Some \<lparr> line_number = n,
      message = u ''ERROR: CRITICAL failure'', level = u ''CRITICAL'', step = None \<rparr>)"
    by (simp add: ev uni_word_lookup cong: in_ranges_cong)
  then show "\<exists>r. parse_line (u ''ERROR: CRITICAL failure'') n = Inr (Some r) \<and> level r = u ''CRITICAL''"
    by simp
  show "parse_line (u ''ERRORCODE 17'') n = Inr None"
    by (simp add: ev uni_word_lookup cong: in_ranges_cong)
qed

text \<open>
  The statement at the line \<open>WARN\<close>, U+0131 (dotless i), \<open>NG disk: errors\<close>, where
  ERROR occurs only inside \<open>errors\<close>: the level computed is WARNING, so WARNING occurs
  as a word and the two stronger markers do not.
\<close>

theorem parse_line_level_witness:
  "occurs_word (u ''WARNING'') (u ''WARN'' @ [305] @ u ''NG disk: errors'') \<and> \<not> occurs_word (u ''ERROR'') (u ''WARN'' @ [305] @ u ''NG disk: errors'')
   \<and> \<not> occurs_word (u ''CRITICAL'') (u ''WARN'' @ [305] @ u ''NG disk: errors'')"
proof -
  have e: "parse_line (u ''WARN'' @ [305] @ u ''NG disk: errors'') 1 = Inr (Some \<lparr> line_number = 1,
      message = (u ''WARN'' @ [305] @ u ''NG disk: errors''), level = u ''WARNING'', step = None \<rparr>)"
    by (simp add: ev uni_word_lookup cong: in_ranges_cong)
  from parse_line_level [of "(u ''WARN'' @ [305] @ u ''NG disk: errors'')" 1]
  have "map_option level (Some \<lparr> line_number = 1,
      message = (u ''WARN'' @ [305] @ u ''NG disk: errors''), level = u ''WARNING'', step = None \<rparr>) =
          (if occurs_word (u ''CRITICAL'') (u ''WARN'' @ [305] @ u ''NG disk: errors'') then Some (u ''CRITICAL'')
           else if occurs_word (u ''ERROR'') (u ''WARN'' @ [305] @ u ''NG disk: errors'') then Some (u ''ERROR'')
           else if occurs_word (u ''WARNING'') (u ''WARN'' @ [305] @ u ''NG disk: errors'') then Some (u ''WARNING'')
           else None)"
    unfolding e by blast
  then show ?thesis by (simp add: u_def split: if_splits)
qed

text \<open>
  C2. The classifier never raises. For a classified line, \<open>step\<close> is unset exactly when the
  line has no well-formed tag \<open>[STEP:<text>]\<close> (the literal in any case, the text non-empty
  and without closing bracket); otherwise there is a first tag and \<open>step\<close> is its text with
  the whitespace on both sides removed. The line \<open>[STEP:Load] ERROR: failed\<close> gives
  level ERROR and step \<open>Load\<close>.
\<close>

theorem parse_line_step:
  "(\<exists>res. parse_line line n = Inr res)
   \<and> (\<forall>r. parse_line line n = Inr (Some r) \<longrightarrow>
         (step r = None \<longleftrightarrow> \<not> has_step_tag line)
         \<and> (has_step_tag line \<longrightarrow> (\<exists>txt. first_step_tag line txt))
         \<and> (\<forall>txt. first_step_tag line txt \<longrightarrow> step r = Some (strip txt)))
   \<and> parse_line (u ''[STEP:Load] ERROR: failed'') n
        = Inr (Some \<lparr> line_number = n, message = u ''[STEP:Load] ERROR: failed'',
                       level = u ''ERROR'', step = Some (u ''Load'') \<rparr>)"
proof (intro conjI allI impI)
  show "\<exists>res. parse_line line n = Inr res"
    by (simp add: parse_line_cases split: option.splits)
next
  fix r assume p: "parse_line line n = Inr (Some r)"
  then have s: "extract_step line = Inr (step r)"
    using extract_step_cases [of line]
    by (auto simp: parse_line_cases split: option.splits)
  from s extract_step_cases [of line] show "step r = None \<longleftrightarrow> \<not> has_step_tag line"
    by auto
  { assume "has_step_tag line"
    with extract_step_cases [of line] show "\<exists>txt. first_step_tag line txt" by auto }
  { fix tx assume f: "first_step_tag line tx"
    then have "has_step_tag line" by (auto simp: first_step_tag_def has_step_tag_def)
    with extract_step_cases [of line] obtain tx' where
      "extract_step line = Inr (Some (strip tx'))" "first_step_tag line tx'" by auto
    with f s show "step r = Some (strip tx)" by (auto dest: first_step_tag_unique) }
next
  show "parse_line (u ''[STEP:Load] ERROR: failed'') n
        = Inr (Some \<lparr> line_number = n, message = u ''[STEP:Load] ERROR: failed'',
                       level = u ''ERROR'', step = Some (u ''Load'') \<rparr>)"
    by (simp add: ev uni_word_lookup cong: in_ranges_cong)
qed

text \<open>
  The statement at a line with two tags, the first in lower case, spelt with U+017F (long
  s) and with blanks around its text.
\<close>

theorem parse_line_step_witness:
  "parse_line (u ''warning ['' @ [383] @ u ''tep: Parse 2 ] [STEP:b]'') 3
     = Inr (Some \<lparr> line_number = 3, message = (u ''warning ['' @ [383] @ u ''tep: Parse 2 ] [STEP:b]''),
                    level = u ''WARNING'', step = Some (u ''Parse 2'') \<rparr>)
   \<and> has_step_tag (u ''warning ['' @ [383] @ u ''tep: Parse 2 ] [STEP:b]'')
   \<and> (\<exists>txt. first_step_tag (u ''warning ['' @ [383] @ u ''tep: Parse 2 ] [STEP:b]'') txt \<and> strip txt = u ''Parse 2'')"
proof -
  let ?r = "\<lparr> line_number = 3, message = (u ''warning ['' @ [383] @ u ''tep: Parse 2 ] [STEP:b]''),
                    level = u ''WARNING'', step = Some (u ''Parse 2'') \<rparr>"
  have e: "parse_line (u ''warning ['' @ [383] @ u ''tep: Parse 2 ] [STEP:b]'') 3 = Inr (Some ?r)"
    by (simp add: ev uni_word_lookup cong: in_ranges_cong)
  from parse_line_step [of "(u ''warning ['' @ [383] @ u ''tep: Parse 2 ] [STEP:b]'')" 3] e
  have a: "(step ?r = None \<longleftrightarrow> \<not> has_step_tag (u ''warning ['' @ [383] @ u ''tep: Parse 2 ] [STEP:b]''))"
    and b: "has_step_tag (u ''warning ['' @ [383] @ u ''tep: Parse 2 ] [STEP:b]'')
          \<longrightarrow> (\<exists>txt. first_step_tag (u ''warning ['' @ [383] @ u ''tep: Parse 2 ] [STEP:b]'') txt)"
    and c: "\<forall>txt. first_step_tag (u ''warning ['' @ [383] @ u ''tep: Parse 2 ] [STEP:b]'') txt
          \<longrightarrow> step ?r = Some (strip txt)"
    by blast+
  from a have h: "has_step_tag (u ''warning ['' @ [383] @ u ''tep: Parse 2 ] [STEP:b]'')" by simp
  with b obtain tx where t: "first_step_tag (u ''warning ['' @ [383] @ u ''tep: Parse 2 ] [STEP:b]'') tx" by blast
  with c have "step ?r = Some (strip tx)" by blast
  then have "strip tx = u ''Parse 2''" by simp
  with e h t show ?thesis by blast
qed

text \<open>
  C3, as the code has it. The message of a classified line is \<open>line.strip()\<close>: the line
  without the whitespace at its start and without the whitespace at its end. The line is
  the message between two stretches of whitespace, and the message neither starts nor ends
  with whitespace.
\<close>

theorem parse_line_message:
  "parse_line line n = Inr (Some r) \<Longrightarrow>
     message r = strip line
     \<and> (\<exists>lead trail. line = lead @ message r @ trail
            \<and> list_all is_space lead \<and> list_all is_space trail)
     \<and> (message r = [] \<or> \<not> is_space (hd (message r)) \<and> \<not> is_space (last (message r)))"
proof -
  assume "parse_line line n = Inr (Some r)"
  then have m: "message r = strip line"
    by (auto simp: parse_line_cases split: option.splits)
  have "line = takeWhile is_space line @ strip line @ rev (takeWhile is_space (rev (lstrip line)))"
    by (rule strip_split)
  moreover have "list_all is_space (takeWhile is_space line)"
    by (auto simp: list_all_iff dest: set_takeWhileD)
  moreover have "list_all is_space (rev (takeWhile is_space (rev (lstrip line))))"
    by (auto simp: list_all_iff dest: set_takeWhileD)
  ultimately have "\<exists>lead trail. line = lead @ strip line @ trail
            \<and> list_all is_space lead \<and> list_all is_space trail"
    by blast
  with m strip_ends [of line] show ?thesis by auto
qed

text \<open>
  The statement at a line with blanks on both sides, U+3000 (ideographic space) and a
  newline at the end.
\<close>

theorem parse_line_message_witness:
  "parse_line (u ''  ERROR: x '' @ [12288, 10]) 7
     = Inr (Some \<lparr> line_number = 7, message = u ''ERROR: x'', level = u ''ERROR'', step = None \<rparr>)
   \<and> (message \<lparr> line_number = 7, message = u ''ERROR: x'', level = u ''ERROR'', step = None \<rparr>
        = strip (u ''  ERROR: x '' @ [12288, 10])
     \<and> (\<exists>lead trail. u ''  ERROR: x '' @ [12288, 10]
            = lead @ message \<lparr> line_number = 7, message = u ''ERROR: x'', level = u ''ERROR'', step = None \<rparr> @ trail
            \<and> list_all is_space lead \<and> list_all is_space trail)
     \<and> (message \<lparr> line_number = 7, message = u ''ERROR: x'', level = u ''ERROR'', step = None \<rparr> = []
          \<or> \<not> is_space (hd (message \<lparr> line_number = 7, message = u ''ERROR: x'', level = u ''ERROR'', step = None \<rparr>))
            \<and> \<not> is_space (last (message \<lparr> line_number = 7, message = u ''ERROR: x'', level = u ''ERROR'', step = None \<rparr>))))"
proof -
  have e: "parse_line (u ''  ERROR: x '' @ [12288, 10]) 7
     = Inr (Some \<lparr> line_number = 7, message = u ''ERROR: x'', level = u ''ERROR'', step = None \<rparr>)"
    by (simp add: ev uni_word_lookup cong: in_ranges_cong)
  show ?thesis by (rule conjI [OF e parse_line_message [OF e]])
qed

text \<open>
  C3 as stated fails: leading whitespace is not preserved. For the line \<open>"  ERROR: x"\<close>
  the message is \<open>"ERROR: x"\<close>, while the line with only its trailing whitespace removed
  is the line itself.
\<close>

theorem parse_line_message_counterexample:
  "parse_line (u ''  ERROR: x'') 1
     = Inr (Some \<lparr> line_number = 1, message = u ''ERROR: x'', level = u ''ERROR'', step = None \<rparr>)
   \<and> rstrip (u ''  ERROR: x'') = u ''  ERROR: x''
   \<and> (u ''ERROR: x'') \<noteq> (u ''  ERROR: x'')"
  by (simp add: ev uni_word_lookup cong: in_ranges_cong)

section \<open>Properties of the dictionaries and of \<open>add_entry\<close>\<close>

lemma map_of_setitem: "map_of (dict_setitem d k v) = (map_of d)(k \<mapsto> v)"
  by (induction d) (auto simp: fun_eq_iff)

lemma dict_get_setitem:
  "dict_get (dict_setitem d k v) k' dflt = (if k' = k then v else dict_get d k' dflt)"
  by (simp add: dict_get_def map_of_setitem)

lemma sum_setitem:
  "sum_list (map snd (dict_setitem d k v)) = sum_list (map snd d) - dict_get d k 0 + (v :: int)"
  by (induction d) (auto simp: dict_get_def)

lemma keys_setitem:
  "map fst (dict_setitem d k v) = (if k \<in> fst ` set d then map fst d else map fst d @ [k])"
  by (induction d) force+

lemma dd_incr_unfold:
  "dd_incr d k = dict_setitem (if map_of d k = None then dict_setitem d k 0 else d) k (dict_get d k 0 + 1)"
  by (auto simp: dd_incr_def dd_getitem_def dict_get_def split: option.splits)

lemma dd_append_unfold:
  "dd_append d k x = dict_setitem (if map_of d k = None then dict_setitem d k [] else d) k (dict_get d k [] @ [x])"
  by (auto simp: dd_append_def dd_getitem_def dict_get_def split: option.splits)

lemma dict_get_incr:
  "dict_get (dd_incr d k) k' 0 = dict_get d k' 0 + (if k' = k then 1 else 0)"
  by (simp add: dd_incr_unfold dict_get_setitem)

lemma sum_incr: "sum_list (map snd (dd_incr d k)) = sum_list (map snd d) + 1"
  by (simp add: dd_incr_unfold sum_setitem dict_get_setitem)

lemma dict_get_append:
  "dict_get (dd_append d k x) k' [] = (if k' = k then dict_get d k [] @ [x] else dict_get d k' [])"
  by (simp add: dd_append_unfold dict_get_setitem)

lemma total_inv_init: "total_inv init"
  by (simp add: total_inv_def init_def)

lemma total_inv_reset: "total_inv (reset a)"
  by (simp add: total_inv_def reset_def)

lemma add_entry_total: "total_entries (add_entry a e f) = total_entries a + 1"
  by (simp add: add_entry_def Let_def split: prod.splits)

lemma add_entry_level_counts: "level_counts (add_entry a e f) = dd_incr (level_counts a) (level e)"
  by (simp add: add_entry_def Let_def split: prod.splits)

lemma add_entry_entries_by_level:
  "entries_by_level (add_entry a e f) = dd_append (entries_by_level a) (level e) (make_entry_data e f)"
  by (simp add: add_entry_def Let_def split: prod.splits)

lemma add_entry_entries_by_step:
  "entries_by_step (add_entry a e f) =
     (if truthy (step e) then dd_append (entries_by_step a) (the (step e)) (make_entry_data e f)
      else entries_by_step a)"
  by (simp add: add_entry_def Let_def split: prod.splits)

lemma add_entry_step_counts:
  "step_counts (add_entry a e f) =
     (if truthy (step e)
      then dict_setitem (snd (dd_getitem [] (step_counts a) (the (step e)))) (the (step e))
             (dd_incr (fst (dd_getitem [] (step_counts a) (the (step e)))) (level e))
      else step_counts a)"
  by (simp add: add_entry_def Let_def split: prod.splits)

lemma total_inv_add: "total_inv a \<Longrightarrow> total_inv (add_entry a e f)"
  by (simp add: total_inv_def add_entry_total add_entry_level_counts sum_incr)

lemma total_inv_apply: "total_inv a \<Longrightarrow> total_inv (apply_op a x)"
  by (cases x) (simp_all add: total_inv_add total_inv_reset)

lemma total_inv_run: "total_inv a \<Longrightarrow> total_inv (run a ops)"
  unfolding run_def by (induction ops arbitrary: a) (simp_all add: total_inv_apply)

lemma total_inv_trace: "total_inv a \<Longrightarrow> list_all total_inv (trace a ops)"
  by (induction ops arbitrary: a) (simp_all add: total_inv_apply)

section \<open>The aggregator\<close>

text \<open>
  C4. After every sequence of \<open>add_entry\<close> and \<open>reset\<close> calls on a new analyzer,
  \<open>total_entries\<close> is the sum of the values of \<open>level_counts\<close>; the same holds in every
  state the sequence passes through, the initial one included.
\<close>

theorem total_entries_invariant:
  "total_entries (run init ops) = sum_list (map snd (level_counts (run init ops)))
   \<and> list_all total_inv (trace init ops)"
  using total_inv_run [OF total_inv_init, of ops] total_inv_trace [OF total_inv_init, of ops]
  by (simp add: total_inv_def)

lemma run_snoc: "run a (ops @ [x]) = apply_op (run a ops) x"
  by (simp add: run_def)

lemma run_Nil: "run a [] = a"
  by (simp add: run_def)

lemma added_snoc:
  "added (ops @ [x]) = (case x of Reset \<Rightarrow> [] | Add e f \<Rightarrow> added ops @ [(e, f)])"
  by (cases x) (simp_all add: added_def)

lemma added_Nil: "added [] = []"
  by (simp add: added_def)

lemma reset_init: "reset a = init"
  by (simp add: reset_def init_def)

lemma level_bucket:
  "dict_get (entries_by_level (run init ops)) lvl [] =
     map (\<lambda>(e, f). make_entry_data e f) (filter (\<lambda>(e, f). level e = lvl) (added ops))"
proof (induction ops rule: rev_induct)
  case Nil
  show ?case by (simp add: run_Nil added_Nil init_def dict_get_def)
next
  case (snoc x ops)
  show ?case
  proof (cases x)
    case (Add e f)
    with snoc show ?thesis
      by (auto simp: run_snoc added_snoc add_entry_entries_by_level dict_get_append)
  next
    case Reset
    then show ?thesis
      by (simp add: run_snoc added_snoc reset_init init_def dict_get_def)
  qed
qed

lemma step_bucket:
  "dict_get (entries_by_step (run init ops)) s [] =
     map (\<lambda>(e, f). make_entry_data e f)
       (filter (\<lambda>(e, f). step e = Some s \<and> s \<noteq> []) (added ops))"
proof (induction ops rule: rev_induct)
  case Nil
  show ?case by (simp add: run_Nil added_Nil init_def dict_get_def)
next
  case (snoc x ops)
  show ?case
  proof (cases x)
    case (Add e f)
    show ?thesis
    proof (cases "truthy (step e)")
      case True
      then obtain k where k: "step e = Some k" "k \<noteq> []"
        by (auto simp: truthy_def split: option.splits)
      with snoc Add True show ?thesis
        by (auto simp: run_snoc added_snoc add_entry_entries_by_step dict_get_append)
    next
      case False
      then have "\<not> (step e = Some s \<and> s \<noteq> [])"
        by (auto simp: truthy_def)
      with snoc Add False show ?thesis
        by (simp add: run_snoc added_snoc add_entry_entries_by_step)
    qed
  next
    case Reset
    then show ?thesis
      by (simp add: run_snoc added_snoc reset_init init_def dict_get_def)
  qed
qed

lemma get_entries_by_level_fst: "fst (get_entries_by_level a lvl) = dict_get (entries_by_level a) lvl []"
  by (simp add: get_entries_by_level_def dd_get_def)

lemma get_entries_by_step_fst: "fst (get_entries_by_step a s) = dict_get (entries_by_step a) s []"
  by (simp add: get_entries_by_step_def dd_get_def)

lemma dict_get_unknown: "k \<notin> fst ` set d \<Longrightarrow> dict_get d k dflt = dflt"
proof -
  assume "k \<notin> fst ` set d"
  then have "map_of d k = None" by (simp add: map_of_eq_None_iff)
  then show ?thesis by (simp add: dict_get_def)
qed

text \<open>
  C6. On the analyzer reached by any sequence of \<open>add_entry\<close> and \<open>reset\<close> calls,
  \<open>get_entries_by_level\<close> returns, for the entries added with that level since the last
  reset and in the order of their addition, the stored records: the four fields of the
  entry and the file name it was added with. \<open>get_entries_by_step\<close> returns the same for
  the entries added with that (non-empty) step. In any state, a key that has no bucket
  gives the empty list. Both are plain values: the operations have no error result.
\<close>

theorem entries_for_key:
  "fst (get_entries_by_level (run init ops) lvl) =
     map (\<lambda>(e, f). \<lparr> line_number = line_number e, message = message e, level = level e,
                      step = step e, filename = f \<rparr>)
       (filter (\<lambda>(e, f). level e = lvl) (added ops))
   \<and> fst (get_entries_by_step (run init ops) s) =
     map (\<lambda>(e, f). \<lparr> line_number = line_number e, message = message e, level = level e,
                      step = step e, filename = f \<rparr>)
       (filter (\<lambda>(e, f). step e = Some s \<and> s \<noteq> []) (added ops))
   \<and> (lvl \<notin> fst ` set (entries_by_level a) \<longrightarrow> fst (get_entries_by_level a lvl) = [])
   \<and> (s \<notin> fst ` set (entries_by_step a) \<longrightarrow> fst (get_entries_by_step a s) = [])"
  by (simp add: get_entries_by_level_fst get_entries_by_step_fst level_bucket step_bucket
      dict_get_unknown make_entry_data_def)

text \<open>
  The statement on the analyzer that received one entry, a reset, and then an ERROR
  entry of step \<open>Load\<close> from \<open>a.log\<close>, a WARNING entry without step from \<open>a.log\<close> and an
  ERROR entry of step \<open>Save\<close> from \<open>b.log\<close>: the ERROR bucket holds the first and the third
  in this order with their file names, the bucket of \<open>Save\<close> the third, and the keys
  CRITICAL and \<open>Parse\<close>, which have no bucket, give the empty list.
\<close>

theorem entries_for_key_witness:
  "fst (get_entries_by_level
      (run init
        [Add \<lparr> line_number = 9, message = u ''CRITICAL: old'', level = u ''CRITICAL'', step = None \<rparr> None,
         Reset,
         Add \<lparr> line_number = 1, message = u ''ERROR: a'', level = u ''ERROR'', step = Some (u ''Load'') \<rparr>
           (Some (u ''a.log'')),
         Add \<lparr> line_number = 2, message = u ''WARNING: b'', level = u ''WARNING'', step = None \<rparr>
           (Some (u ''a.log'')),
         Add \<lparr> line_number = 5, message = u ''ERROR: c'', level = u ''ERROR'', step = Some (u ''Save'') \<rparr>
           (Some (u ''b.log''))])
      (u ''ERROR''))
     = [\<lparr> line_number = 1, message = u ''ERROR: a'', level = u ''ERROR'', step = Some (u ''Load''),
          filename = Some (u ''a.log'') \<rparr>,
        \<lparr> line_number = 5, message = u ''ERROR: c'', level = u ''ERROR'', step = Some (u ''Save''),
          filename = Some (u ''b.log'') \<rparr>]
   \<and> fst (get_entries_by_step
      (run init
        [Add \<lparr> line_number = 9, message = u ''CRITICAL: old'', level = u ''CRITICAL'', step = None \<rparr> None,
         Reset,
         Add \<lparr> line_number = 1, message = u ''ERROR: a'', level = u ''ERROR'', step = Some (u ''Load'') \<rparr>
           (Some (u ''a.log'')),
         Add \<lparr> line_number = 2, message = u ''WARNING: b'', level = u ''WARNING'', step = None \<rparr>
           (Some (u ''a.log'')),
         Add \<lparr> line_number = 5, message = u ''ERROR: c'', level = u ''ERROR'', step = Some (u ''Save'') \<rparr>
           (Some (u ''b.log''))])
      (u ''Save''))
     = [\<lparr> line_number = 5, message = u ''ERROR: c'', level = u ''ERROR'', step = Some (u ''Save''),
          filename = Some (u ''b.log'') \<rparr>]
   \<and> u ''CRITICAL'' \<notin> fst ` set (entries_by_level
      (run init
        [Add \<lparr> line_number = 9, message = u ''CRITICAL: old'', level = u ''CRITICAL'', step = None \<rparr> None,
         Reset,
         Add \<lparr> line_number = 1, message = u ''ERROR: a'', level = u ''ERROR'', step = Some (u ''Load'') \<rparr>
           (Some (u ''a.log'')),
         Add \<lparr> line_number = 2, message = u ''WARNING: b'', level = u ''WARNING'', step = None \<rparr>
           (Some (u ''a.log'')),
         Add \<lparr> line_number = 5, message = u ''ERROR: c'', level = u ''ERROR'', step = Some (u ''Save'') \<rparr>
           (Some (u ''b.log''))]))
   \<and> fst (get_entries_by_level
      (run init
        [Add \<lparr> line_number = 9, message = u ''CRITICAL: old'', level = u ''CRITICAL'', step = None \<rparr> None,
         Reset,
         Add \<lparr> line_number = 1, message = u ''ERROR: a'', level = u ''ERROR'', step = Some (u ''Load'') \<rparr>
           (Some (u ''a.log'')),
         Add \<lparr> line_number = 2, message = u ''WARNING: b'', level = u ''WARNING'', step = None \<rparr>
           (Some (u ''a.log'')),
         Add \<lparr> line_number = 5, message = u ''ERROR: c'', level = u ''ERROR'', step = Some (u ''Save'') \<rparr>
           (Some (u ''b.log''))])
      (u ''CRITICAL'')) = []
   \<and> u ''Parse'' \<notin> fst ` set (entries_by_step
      (run init
        [Add \<lparr> line_number = 9, message = u ''CRITICAL: old'', level = u ''CRITICAL'', step = None \<rparr> None,
         Reset,
         Add \<lparr> line_number = 1, message = u ''ERROR: a'', level = u ''ERROR'', step = Some (u ''Load'') \<rparr>
           (Some (u ''a.log'')),
         Add \<lparr> line_number = 2, message = u ''WARNING: b'', level = u ''WARNING'', step = None \<rparr>
           (Some (u ''a.log'')),
         Add \<lparr> line_number = 5, message = u ''ERROR: c'', level = u ''ERROR'', step = Some (u ''Save'') \<rparr>
           (Some (u ''b.log''))]))
   \<and> fst (get_entries_by_step
      (run init
        [Add \<lparr> line_number = 9, message = u ''CRITICAL: old'', level = u ''CRITICAL'', step = None \<rparr> None,
         Reset,
         Add \<lparr> line_number = 1, message = u ''ERROR: a'', level = u ''ERROR'', step = Some (u ''Load'') \<rparr>
           (Some (u ''a.log'')),
         Add \<lparr> line_number = 2, message = u ''WARNING: b'', level = u ''WARNING'', step = None \<rparr>
           (Some (u ''a.log'')),
         Add \<lparr> line_number = 5, message = u ''ERROR: c'', level = u ''ERROR'', step = Some (u ''Save'') \<rparr>
           (Some (u ''b.log''))])
      (u ''Parse'')) = []"
proof -
  let ?ops = "[Add \<lparr> line_number = 9, message = u ''CRITICAL: old'', level = u ''CRITICAL'', step = None \<rparr> None,
         Reset,
         Add \<lparr> line_number = 1, message = u ''ERROR: a'', level = u ''ERROR'', step = Some (u ''Load'') \<rparr>
           (Some (u ''a.log'')),
         Add \<lparr> line_number = 2, message = u ''WARNING: b'', level = u ''WARNING'', step = None \<rparr>
           (Some (u ''a.log'')),
         Add \<lparr> line_number = 5, message = u ''ERROR: c'', level = u ''ERROR'', step = Some (u ''Save'') \<rparr>
           (Some (u ''b.log''))]"
  have l: "map fst (entries_by_level (run init ?ops)) = [u ''ERROR'', u ''WARNING'']"
    by (simp add: run_def reset_init init_def add_entry_entries_by_level dd_append_unfold u_def)
  have s: "map fst (entries_by_step (run init ?ops)) = [u ''Load'', u ''Save'']"
    by (simp add: run_def reset_init init_def add_entry_entries_by_step dd_append_unfold
        truthy_def u_def)
  have nl: "u ''CRITICAL'' \<notin> fst ` set (entries_by_level (run init ?ops))"
    unfolding set_map [symmetric] l by (simp add: u_def)
  have ns: "u ''Parse'' \<notin> fst ` set (entries_by_step (run init ?ops))"
    unfolding set_map [symmetric] s by (simp add: u_def)
  from entries_for_key [of ?ops "u ''ERROR''" "u ''Save''" init]
  have a: "fst (get_entries_by_level (run init ?ops) (u ''ERROR'')) =
      [\<lparr> line_number = 1, message = u ''ERROR: a'', level = u ''ERROR'', step = Some (u ''Load''),
          filename = Some (u ''a.log'') \<rparr>,
        \<lparr> line_number = 5, message = u ''ERROR: c'', level = u ''ERROR'', step = Some (u ''Save''),
          filename = Some (u ''b.log'') \<rparr>]"
    and b: "fst (get_entries_by_step (run init ?ops) (u ''Save'')) =
      [\<lparr> line_number = 5, message = u ''ERROR: c'', level = u ''ERROR'', step = Some (u ''Save''),
          filename = Some (u ''b.log'') \<rparr>]"
    by (simp_all add: added_def u_def)
  from entries_for_key [of ?ops "u ''CRITICAL''" "u ''Parse''" "run init ?ops"] nl ns
  have "fst (get_entries_by_level (run init ?ops) (u ''CRITICAL'')) = []"
    and "fst (get_entries_by_step (run init ?ops) (u ''Parse'')) = []"
    by blast+
  with a b nl ns show ?thesis by blast
qed

text \<open>
  C5. \<open>get_summary\<close> leaves the state as it is, so a second call returns what the first
  returned. On a new analyzer and after \<open>reset\<close> it returns total 0, an empty mapping of
  level counts (every count read from it, with the reporters' default 0, is 0), and no
  steps.
\<close>

theorem summary_read_only:
  "snd (get_summary a) = a
   \<and> fst (get_summary (snd (get_summary a))) = fst (get_summary a)
   \<and> get_summary init = (\<lparr> sum_total_entries = 0, sum_level_counts = [],
                             sum_step_counts = [], sum_steps = [] \<rparr>, init)
   \<and> get_summary (reset a) = (\<lparr> sum_total_entries = 0, sum_level_counts = [],
                             sum_step_counts = [], sum_steps = [] \<rparr>, init)
   \<and> dict_get (sum_level_counts (fst (get_summary init))) lvl 0 = 0
   \<and> dict_get (sum_level_counts (fst (get_summary (reset a)))) lvl 0 = 0"
  by (simp add: get_summary_def reset_init) (simp add: init_def dict_get_def)

text \<open>
  The read that would change the state: \<open>d[k]\<close> on a \<open>defaultdict\<close> without the key.
  The getters use \<open>d.get(k, [])\<close> instead.
\<close>

lemma dd_getitem_missing: "map_of d k = None \<Longrightarrow> snd (dd_getitem dflt d k) \<noteq> d"
proof -
  assume n: "map_of d k = None"
  then have "k \<notin> fst ` set d" by (simp add: map_of_eq_None_iff)
  then have "length (map fst (dict_setitem d k dflt)) = Suc (length d)"
    by (simp add: keys_setitem)
  then have "dict_setitem d k dflt \<noteq> d" by auto
  with n show ?thesis by (simp add: dd_getitem_def)
qed

text \<open>
  C10. Each read operation (\<open>get_summary\<close>, \<open>get_level_frequency\<close>,
  \<open>get_step_frequency\<close>, \<open>get_entries_by_level\<close>, \<open>get_entries_by_step\<close>) returns the
  state it was called on; in particular the keys of the two bucket dictionaries are the
  same after a query, for a known or an unknown key.
\<close>

theorem reads_leave_state:
  "snd (get_summary a) = a
   \<and> snd (get_level_frequency a) = a
   \<and> snd (get_step_frequency a) = a
   \<and> snd (get_entries_by_level a lvl) = a
   \<and> snd (get_entries_by_step a s) = a
   \<and> map fst (entries_by_level (snd (get_entries_by_level a lvl))) = map fst (entries_by_level a)
   \<and> map fst (entries_by_step (snd (get_entries_by_step a s))) = map fst (entries_by_step a)"
  by (simp add: get_summary_def get_level_frequency_def get_step_frequency_def
      get_entries_by_level_def get_entries_by_step_def dd_get_def)

lemma strip_all_space: "list_all is_space s \<Longrightarrow> strip s = []"
proof -
  assume "list_all is_space s"
  then have "lstrip s = []" by (simp add: lstrip_def list_all_iff)
  then show ?thesis by (simp add: strip_def rstrip_def)
qed

lemma parse_line_first_tag:
  assumes "parse_line line n = Inr (Some r)" "first_step_tag line tx"
  shows "step r = Some (strip tx)"
proof -
  from assms(1) have s: "extract_step line = Inr (step r)"
    using extract_step_cases [of line]
    by (auto simp: parse_line_cases split: option.splits)
  from assms(2) have "has_step_tag line"
    by (auto simp: first_step_tag_def has_step_tag_def)
  with extract_step_cases [of line] obtain tx' where
    "extract_step line = Inr (Some (strip tx'))" "first_step_tag line tx'" by auto
  with assms(2) s show ?thesis by (auto dest: first_step_tag_unique)
qed

lemma make_entry_data_step: "make_entry_data e f = make_entry_data e' f' \<Longrightarrow> step e' = step e"
proof -
  assume "make_entry_data e f = make_entry_data e' f'"
  then have "step (make_entry_data e f) = step (make_entry_data e' f')" by simp
  then show ?thesis by (simp add: make_entry_data_def)
qed

text \<open>
  C9. The line \<open>[STEP:  ] ERROR: x\<close> is classified with the empty string as step, and so
  is every classified line whose first tag holds only whitespace. Adding an entry whose
  step is the empty string counts it in \<open>total_entries\<close> and in the count of its level and
  stores it in the bucket of its level, and leaves \<open>step_counts\<close> and \<open>entries_by_step\<close> as
  they were; its record is in no step bucket of any analyzer built from a new one.
\<close>

theorem blank_step_not_bucketed:
  "parse_line (u ''[STEP:  ] ERROR: x'') n
     = Inr (Some \<lparr> line_number = n, message = u ''[STEP:  ] ERROR: x'', level = u ''ERROR'',
                    step = Some [] \<rparr>)
   \<and> (\<forall>r txt. parse_line line m = Inr (Some r) \<and> first_step_tag line txt \<and> list_all is_space txt
         \<longrightarrow> step r = Some [])
   \<and> (step e = Some [] \<longrightarrow>
         total_entries (add_entry a e f) = total_entries a + 1
         \<and> level_counts (add_entry a e f) = dd_incr (level_counts a) (level e)
         \<and> dict_get (level_counts (add_entry a e f)) (level e) 0
             = dict_get (level_counts a) (level e) 0 + 1
         \<and> fst (get_entries_by_level (add_entry a e f) (level e))
             = fst (get_entries_by_level a (level e)) @ [make_entry_data e f]
         \<and> step_counts (add_entry a e f) = step_counts a
         \<and> entries_by_step (add_entry a e f) = entries_by_step a)
   \<and> (step e = Some [] \<longrightarrow>
         make_entry_data e f \<notin> set (fst (get_entries_by_step (run init ops) s)))"
proof (intro conjI allI impI)
  show "parse_line (u ''[STEP:  ] ERROR: x'') n
     = Inr (Some \<lparr> line_number = n, message = u ''[STEP:  ] ERROR: x'', level = u ''ERROR'',
                    step = Some [] \<rparr>)"
    by (simp add: ev uni_word_lookup cong: in_ranges_cong)
next
  fix r tx
  assume "parse_line line m = Inr (Some r) \<and> first_step_tag line tx \<and> list_all is_space tx"
  then show "step r = Some []"
    by (auto dest: parse_line_first_tag simp: strip_all_space)
next
  assume b: "step e = Some []"
  then have nt: "\<not> truthy (step e)" by (simp add: truthy_def)
  show "total_entries (add_entry a e f) = total_entries a + 1"
    by (rule add_entry_total)
  show "level_counts (add_entry a e f) = dd_incr (level_counts a) (level e)"
    by (rule add_entry_level_counts)
  show "dict_get (level_counts (add_entry a e f)) (level e) 0
             = dict_get (level_counts a) (level e) 0 + 1"
    by (simp add: add_entry_level_counts dict_get_incr)
  show "fst (get_entries_by_level (add_entry a e f) (level e))
             = fst (get_entries_by_level a (level e)) @ [make_entry_data e f]"
    by (simp add: get_entries_by_level_fst add_entry_entries_by_level dict_get_append)
  from nt show "step_counts (add_entry a e f) = step_counts a"
    by (simp add: add_entry_step_counts)
  from nt show "entries_by_step (add_entry a e f) = entries_by_step a"
    by (simp add: add_entry_entries_by_step)
next
  assume b: "step e = Some []"
  show "make_entry_data e f \<notin> set (fst (get_entries_by_step (run init ops) s))"
  proof
    assume "make_entry_data e f \<in> set (fst (get_entries_by_step (run init ops) s))"
    then obtain e' f' where "make_entry_data e f = make_entry_data e' f'"
        "step e' = Some s" "s \<noteq> []"
      by (auto simp: get_entries_by_step_fst step_bucket)
    with b show False by (auto dest: make_entry_data_step)
  qed
qed

text \<open>
  The statement at the line \<open>[STEP:\<close>, U+3000 (ideographic space), blank, \<open>] ERROR: x\<close>,
  its entry added to a new analyzer.
\<close>

theorem blank_step_not_bucketed_witness:
  "parse_line (u ''[STEP:'' @ [12288, 32] @ u ''] ERROR: x'') 4
     = Inr (Some \<lparr> line_number = 4, message = u ''[STEP:'' @ [12288, 32] @ u ''] ERROR: x'',
                    level = u ''ERROR'', step = Some [] \<rparr>)
   \<and> first_step_tag (u ''[STEP:'' @ [12288, 32] @ u ''] ERROR: x'') [12288, 32]
   \<and> list_all is_space [12288, 32]
   \<and> step \<lparr> line_number = 4, message = u ''[STEP:'' @ [12288, 32] @ u ''] ERROR: x'',
                    level = u ''ERROR'', step = Some [] \<rparr> = Some []
   \<and> total_entries (add_entry init \<lparr> line_number = 4,
        message = u ''[STEP:'' @ [12288, 32] @ u ''] ERROR: x'',
        level = u ''ERROR'', step = Some [] \<rparr> (Some (u ''a.log''))) = 1
   \<and> step_counts (add_entry init \<lparr> line_number = 4,
        message = u ''[STEP:'' @ [12288, 32] @ u ''] ERROR: x'',
        level = u ''ERROR'', step = Some [] \<rparr> (Some (u ''a.log''))) = []
   \<and> entries_by_step (add_entry init \<lparr> line_number = 4,
        message = u ''[STEP:'' @ [12288, 32] @ u ''] ERROR: x'',
        level = u ''ERROR'', step = Some [] \<rparr> (Some (u ''a.log''))) = []"
proof -
  let ?L = "u ''[STEP:'' @ [12288, 32] @ u ''] ERROR: x''"
  let ?r = "\<lparr> line_number = 4, message = u ''[STEP:'' @ [12288, 32] @ u ''] ERROR: x'',
                    level = u ''ERROR'', step = Some [] \<rparr>"
  note inst = blank_step_not_bucketed [of 4 ?L 4 ?r init "Some (u ''a.log'')" "[]" "[]"]
  have p: "parse_line ?L 4 = Inr (Some ?r)"
    by (simp add: ev uni_word_lookup cong: in_ranges_cong)
  have "step_tag_at ?L [] [12288, 32] (u '' ERROR: x'')"
    unfolding step_tag_at_def by (rule exI [of _ "u ''[STEP:''"]) (simp add: ci_eq_def u_def)
  then have t: "first_step_tag ?L [12288, 32]"
    unfolding first_step_tag_def by (intro exI [of _ "[]"] exI [of _ "u '' ERROR: x''"]) simp
  have sp: "list_all is_space [12288, 32]" by (simp add: is_space_def)
  from inst p t sp have st: "step ?r = Some []" by blast
  from inst st have
    "total_entries (add_entry init ?r (Some (u ''a.log''))) = total_entries init + 1"
    "step_counts (add_entry init ?r (Some (u ''a.log''))) = step_counts init"
    "entries_by_step (add_entry init ?r (Some (u ''a.log''))) = entries_by_step init"
    by blast+
  then have
    "total_entries (add_entry init ?r (Some (u ''a.log''))) = 1"
    "step_counts (add_entry init ?r (Some (u ''a.log''))) = []"
    "entries_by_step (add_entry init ?r (Some (u ''a.log''))) = []"
    by (simp_all add: init_def)
  with p t sp st show ?thesis by blast
qed

section \<open>The detailed report and the file scanner\<close>

lemma write_entry_block: "write_entry buf e = buf @ entry_block e"
  by (auto simp: write_entry_def entry_block_def truthy_def Let_def split: option.splits)

lemma foldl_write_entry: "foldl write_entry buf es = buf @ concat (map entry_block es)"
proof (induction es arbitrary: buf)
  case Nil
  show ?case by simp
next
  case (Cons e es)
  have "foldl write_entry buf (e # es) = foldl write_entry (write_entry buf e) es" by simp
  also have "\<dots> = write_entry buf e @ concat (map entry_block es)" by (rule Cons.IH)
  also have "\<dots> = (buf @ entry_block e) @ concat (map entry_block es)"
    by (simp only: write_entry_block)
  finally show ?case by simp
qed

lemma str_int_nat: "str_int (int k) = str_nat k"
  by (simp add: str_int_def)

lemma slice_to_nat: "slice_to xs (int cap) = take cap xs"
  by (simp add: slice_to_def)

lemma get_entries_by_level_snd: "snd (get_entries_by_level a lvl) = a"
  by (simp add: get_entries_by_level_def dd_get_def)

lemma write_level_section:
  "write_level (int cap) (buf, a) lvl =
     (buf @ level_section cap (fst (get_entries_by_level a lvl)) lvl, a)"
proof -
  obtain es a' where g: "get_entries_by_level a lvl = (es, a')" by (cases "get_entries_by_level a lvl")
  with get_entries_by_level_snd [of a lvl] have a': "a' = a" by simp
  show ?thesis
  proof (cases "cap < length es")
    case True
    then have "int (length es) - int cap = int (length es - cap)" by simp
    with True g a' show ?thesis
      by (simp add: write_level_def level_section_def level_heading_def omitted_note_def
          foldl_write_entry slice_to_nat str_int_nat Let_def del: of_nat_diff)
  next
    case False
    with g a' show ?thesis
      by (simp add: write_level_def level_section_def level_heading_def
          foldl_write_entry slice_to_nat Let_def)
  qed
qed

lemma detailed_report_sections:
  "generate_detailed_report a now (int cap) =
     (report_header now
        @ level_section cap (fst (get_entries_by_level a (u ''CRITICAL''))) (u ''CRITICAL'')
        @ level_section cap (fst (get_entries_by_level a (u ''ERROR''))) (u ''ERROR'')
        @ level_section cap (fst (get_entries_by_level a (u ''WARNING''))) (u ''WARNING''), a)"
  by (simp add: generate_detailed_report_def report_header_def write_level_section Let_def)

lemma str_nat_50: "str_nat 50 = u ''50''"
  by (simp add: str_nat.simps digit_char_def u_def)

lemma str_nat_150: "str_nat 150 = u ''150''"
  by (simp add: str_nat.simps digit_char_def u_def)

lemma analyze_entries_run: "analyze_entries a es f = run a (map (\<lambda>e. Add e f) es)"
  by (simp add: analyze_entries_def run_def foldl_map)

lemma added_Adds: "added (map (\<lambda>e. Add e f) es) = map (\<lambda>e. (e, f)) es"
  by (induction es rule: rev_induct) (simp_all add: added_Nil added_snoc)

lemma added_replicate: "added (replicate n (Add e f)) = replicate n (e, f)"
  using added_Adds [of f "replicate n e"] by simp

text \<open>
  C7. With a cap of \<open>cap\<close> records the report is its header followed by the parts for
  CRITICAL, ERROR and WARNING in this order, each with the heading of the level, the text
  of at most the first \<open>cap\<close> records of the level and, when there are more, the note of
  how many were left out; the default cap is 100. For 150 ERROR records the part for ERROR
  is the heading, the text of the first 100 records and the note
  \<open>*...and 50 more ERROR messages*\<close>.
\<close>

theorem detailed_report_cap:
  "fst (generate_detailed_report a now (int cap)) =
     report_header now
       @ level_section cap (fst (get_entries_by_level a (u ''CRITICAL''))) (u ''CRITICAL'')
       @ level_section cap (fst (get_entries_by_level a (u ''ERROR''))) (u ''ERROR'')
       @ level_section cap (fst (get_entries_by_level a (u ''WARNING''))) (u ''WARNING'')
   \<and> fst (generate_detailed_report a now default_max_entries) =
     report_header now
       @ level_section 100 (fst (get_entries_by_level a (u ''CRITICAL''))) (u ''CRITICAL'')
       @ level_section 100 (fst (get_entries_by_level a (u ''ERROR''))) (u ''ERROR'')
       @ level_section 100 (fst (get_entries_by_level a (u ''WARNING''))) (u ''WARNING'')
   \<and> (length (fst (get_entries_by_level a (u ''ERROR''))) = 150 \<longrightarrow>
        level_section 100 (fst (get_entries_by_level a (u ''ERROR''))) (u ''ERROR'') =
          u ''## ERROR Messages (150 total)'' @ nl @ nl
            @ concat (map entry_block (take 100 (fst (get_entries_by_level a (u ''ERROR'')))))
            @ u ''*...and 50 more ERROR messages*'' @ nl @ nl
        \<and> length (take 100 (fst (get_entries_by_level a (u ''ERROR'')))) = 100)"
proof (intro conjI impI)
  show "fst (generate_detailed_report a now (int cap)) =
     report_header now
       @ level_section cap (fst (get_entries_by_level a (u ''CRITICAL''))) (u ''CRITICAL'')
       @ level_section cap (fst (get_entries_by_level a (u ''ERROR''))) (u ''ERROR'')
       @ level_section cap (fst (get_entries_by_level a (u ''WARNING''))) (u ''WARNING'')"
    by (simp only: detailed_report_sections fst_conv)
  have d: "default_max_entries = int 100" by (simp add: default_max_entries_def)
  show "fst (generate_detailed_report a now default_max_entries) =
     report_header now
       @ level_section 100 (fst (get_entries_by_level a (u ''CRITICAL''))) (u ''CRITICAL'')
       @ level_section 100 (fst (get_entries_by_level a (u ''ERROR''))) (u ''ERROR'')
       @ level_section 100 (fst (get_entries_by_level a (u ''WARNING''))) (u ''WARNING'')"
    unfolding d by (simp only: detailed_report_sections fst_conv)
next
  assume l: "length (fst (get_entries_by_level a (u ''ERROR''))) = 150"
  then have ne: "fst (get_entries_by_level a (u ''ERROR'')) \<noteq> []" by auto
  from l ne show "level_section 100 (fst (get_entries_by_level a (u ''ERROR''))) (u ''ERROR'') =
          u ''## ERROR Messages (150 total)'' @ nl @ nl
            @ concat (map entry_block (take 100 (fst (get_entries_by_level a (u ''ERROR'')))))
            @ u ''*...and 50 more ERROR messages*'' @ nl @ nl"
    by (simp add: level_section_def level_heading_def omitted_note_def str_nat_50 str_nat_150)
      (simp add: u_def)
  from l show "length (take 100 (fst (get_entries_by_level a (u ''ERROR'')))) = 100" by simp
qed

text \<open>
  The statement on the analyzer that received 150 ERROR entries of step \<open>Load\<close> from
  \<open>a.log\<close>, numbered 1 to 150: the whole text of the report with the default cap, which
  holds the entries 1 to 100 and the note.
\<close>

theorem detailed_report_cap_witness:
  "length (fst (get_entries_by_level
      (analyze_entries init
         (map (\<lambda>n. \<lparr> line_number = int n, message = u ''ERROR: x'', level = u ''ERROR'',
                       step = Some (u ''Load'') \<rparr>) [1 ..< 151])
         (Some (u ''a.log''))) (u ''ERROR''))) = 150
   \<and> fst (generate_detailed_report
      (analyze_entries init
         (map (\<lambda>n. \<lparr> line_number = int n, message = u ''ERROR: x'', level = u ''ERROR'',
                       step = Some (u ''Load'') \<rparr>) [1 ..< 151])
         (Some (u ''a.log''))) (u ''2024-01-15 10:00:00'') default_max_entries) =
     u ''# Detailed Log Analysis Report'' @ [10, 10]
       @ u ''**Generated:** 2024-01-15 10:00:00'' @ [10, 10]
       @ u ''## ERROR Messages (150 total)'' @ [10, 10]
       @ concat (map (\<lambda>n. u ''### Line '' @ str_nat n @ u '' - a.log - [STEP: Load]'' @ [10, 10]
                         @ u ''```'' @ [10] @ u ''ERROR: x'' @ [10] @ u ''```'' @ [10, 10])
                   [1 ..< 101])
       @ u ''*...and 50 more ERROR messages*'' @ [10, 10]"
proof -
  let ?mk = "\<lambda>n. \<lparr> line_number = int n, message = u ''ERROR: x'', level = u ''ERROR'',
                       step = Some (u ''Load'') \<rparr>"
  let ?a = "analyze_entries init (map ?mk [1 ..< 151]) (Some (u ''a.log''))"
  let ?ed = "\<lambda>n. \<lparr> line_number = int n, message = u ''ERROR: x'', level = u ''ERROR'',
                       step = Some (u ''Load''), filename = Some (u ''a.log'') \<rparr>"
  have ad: "added (map (\<lambda>e. Add e (Some (u ''a.log''))) (map ?mk [1 ..< 151]))
      = map (\<lambda>e. (e, Some (u ''a.log''))) (map ?mk [1 ..< 151])"
    by (rule added_Adds)
  have es: "fst (get_entries_by_level ?a (u ''ERROR'')) = map ?ed [1 ..< 151]"
    unfolding analyze_entries_run get_entries_by_level_fst level_bucket ad
    by (simp add: make_entry_data_def comp_def)
  have ec: "fst (get_entries_by_level ?a (u ''CRITICAL'')) = []"
    unfolding analyze_entries_run get_entries_by_level_fst level_bucket ad
    by (simp add: comp_def u_def)
  have ew: "fst (get_entries_by_level ?a (u ''WARNING'')) = []"
    unfolding analyze_entries_run get_entries_by_level_fst level_bucket ad
    by (simp add: comp_def u_def)
  from es have len: "length (fst (get_entries_by_level ?a (u ''ERROR''))) = 150" by simp
  have tk: "take 100 (map ?ed [1 ..< 151]) = map ?ed [1 ..< 101]"
    by (simp add: take_map)
  have blk: "map entry_block (map ?ed [1 ..< 101]) =
      map (\<lambda>n. u ''### Line '' @ str_nat n @ u '' - a.log - [STEP: Load]'' @ [10, 10]
                         @ u ''```'' @ [10] @ u ''ERROR: x'' @ [10] @ u ''```'' @ [10, 10])
          [1 ..< 101]"
    by (simp add: entry_block_def str_int_nat nl_def u_def)
  from detailed_report_cap [of ?a "u ''2024-01-15 10:00:00''" 0] len
  have r: "fst (generate_detailed_report ?a (u ''2024-01-15 10:00:00'') default_max_entries) =
     report_header (u ''2024-01-15 10:00:00'')
       @ level_section 100 (fst (get_entries_by_level ?a (u ''CRITICAL''))) (u ''CRITICAL'')
       @ level_section 100 (fst (get_entries_by_level ?a (u ''ERROR''))) (u ''ERROR'')
       @ level_section 100 (fst (get_entries_by_level ?a (u ''WARNING''))) (u ''WARNING'')"
    and s: "level_section 100 (fst (get_entries_by_level ?a (u ''ERROR''))) (u ''ERROR'') =
          u ''## ERROR Messages (150 total)'' @ nl @ nl
            @ concat (map entry_block (take 100 (fst (get_entries_by_level ?a (u ''ERROR'')))))
            @ u ''*...and 50 more ERROR messages*'' @ nl @ nl"
    by blast+
  have n: "level_section 100 [] lvl = []" for lvl by (simp add: level_section_def)
  have "fst (generate_detailed_report ?a (u ''2024-01-15 10:00:00'') default_max_entries) =
     u ''# Detailed Log Analysis Report'' @ [10, 10]
       @ u ''**Generated:** 2024-01-15 10:00:00'' @ [10, 10]
       @ u ''## ERROR Messages (150 total)'' @ [10, 10]
       @ concat (map (\<lambda>n. u ''### Line '' @ str_nat n @ u '' - a.log - [STEP: Load]'' @ [10, 10]
                         @ u ''```'' @ [10] @ u ''ERROR: x'' @ [10] @ u ''```'' @ [10, 10])
                   [1 ..< 101])
       @ u ''*...and 50 more ERROR messages*'' @ [10, 10]"
    unfolding r ec ew n es unfolding s [unfolded es tk blk]
    by (simp add: report_header_def nl_def u_def)
  with len show ?thesis by blast
qed






end
